theory Spec2Isabelle
  imports
    Main
    "HOL-Library.AList"
    "HOL-Library.Char_ord"
    "HOL-Library.List_Lexorder"
    "HOL-Library.Multiset"
begin

section \<open>The data of tema1.cpp\<close>

text \<open>
  \<^verbatim>\<open>struct WordEntry { std::string word; std::vector<int> file_ids; };\<close>
  A \<^verbatim>\<open>std::string\<close> is a list of bytes; \<^verbatim>\<open>operator<\<close> on it is the lexicographic
  order of the bytes, which is the order of \<open>string\<close> with \<open>Char_ord\<close> and
  \<open>List_Lexorder\<close>.
\<close>

record WordEntry =
  word :: string
  file_ids :: "int list"

text \<open>
  \<^verbatim>\<open>ResultData::table\<close> is a \<^verbatim>\<open>std::unordered_map<std::string, WordEntry>\<close>. It is an
  association list here: the order of the list is the order in which the map is iterated.
  That order is unspecified in C++, so nothing below depends on it: the theorems about the
  output hold for every order of the entries.
\<close>

type_synonym table = "(string \<times> WordEntry) list"

definition NUM_LETTERS :: nat where
  "NUM_LETTERS = 26"

section \<open>Tokenizer\<close>

text \<open>
  \<^verbatim>\<open>std::isalpha\<close> and \<^verbatim>\<open>::tolower\<close> in the "C" locale (the program never calls
  \<^verbatim>\<open>setlocale\<close>): the letters are the ASCII letters.
\<close>

definition isalpha :: "char \<Rightarrow> bool" where
  "isalpha c = ((65 \<le> (of_char c :: nat) \<and> (of_char c :: nat) \<le> 90)
              \<or> (97 \<le> (of_char c :: nat) \<and> (of_char c :: nat) \<le> 122))"

definition tolower :: "char \<Rightarrow> char" where
  "tolower c = (if 65 \<le> (of_char c :: nat) \<and> (of_char c :: nat) \<le> 90
                then char_of ((of_char c :: nat) + 32) else c)"

definition clean_word :: "string \<Rightarrow> string" where
  "clean_word w = map tolower (filter (\<lambda>c. isalpha c) w)"

text \<open>
  \<^verbatim>\<open>file >> word\<close>: skip white space, then read up to the next white space.
\<close>

definition isspace :: "char \<Rightarrow> bool" where
  "isspace c = ((of_char c :: nat) \<in> {9, 10, 11, 12, 13, 32})"

fun split_ws :: "string \<Rightarrow> string \<Rightarrow> string list" where
  "split_ws cur [] = (if cur = [] then [] else [cur])"
| "split_ws cur (c # cs) =
     (if isspace c then (if cur = [] then split_ws [] cs else cur # split_ws [] cs)
      else split_ws (cur @ [c]) cs)"

definition tokens :: "string \<Rightarrow> string list" where
  "tokens content = split_ws [] content"

section \<open>add_table\<close>

text \<open>
  \<^verbatim>\<open>std::lower_bound(first, last, v)\<close> on a range partitioned by \<open>< v\<close>: the position
  of the first element that is not less than \<open>v\<close> (\<open>length xs\<close> stands for \<^verbatim>\<open>end()\<close>).
\<close>

definition lower_bound :: "int list \<Rightarrow> int \<Rightarrow> nat" where
  "lower_bound xs v = length (takeWhile (\<lambda>x. x < v) xs)"

text \<open>\<^verbatim>\<open>vector::insert(it, v)\<close> at position \<open>it\<close>.\<close>

definition vec_insert :: "nat \<Rightarrow> int \<Rightarrow> int list \<Rightarrow> int list" where
  "vec_insert it v xs = take it xs @ v # drop it xs"

text \<open>
  The body of \<^verbatim>\<open>add_table\<close> between \<^verbatim>\<open>pthread_mutex_lock\<close> and
  \<^verbatim>\<open>pthread_mutex_unlock\<close>. A new key goes to the end of the association list
  (\<open>AList.update\<close> appends a missing key and replaces the value of a present one in place).
\<close>

definition add_table :: "table \<Rightarrow> string \<Rightarrow> nat \<Rightarrow> table" where
  "add_table t w file_id =
     (case map_of t w of
        None \<Rightarrow> AList.update w \<lparr>word = w, file_ids = [int file_id + 1]\<rparr> t
      | Some entry \<Rightarrow>
          (let file_index = int file_id + 1;
               it = lower_bound (file_ids entry) file_index
           in if it = length (file_ids entry) \<or> file_ids entry ! it \<noteq> file_index
              then AList.update w (entry\<lparr>file_ids := vec_insert it file_index (file_ids entry)\<rparr>) t
              else t))"

section \<open>Mapper\<close>

text \<open>
  \<^verbatim>\<open>local_results\<close> is an \<^verbatim>\<open>unordered_map<int, unordered_map<std::string, int>>\<close>:
  letter index to (word to count). \<^verbatim>\<open>local_results[letter_index][word]++\<close> creates the
  bucket and the counter (at 0) when they are missing.
\<close>

type_synonym local_results = "(int \<times> (string \<times> int) list) list"

definition letter_index :: "string \<Rightarrow> int" where
  "letter_index w = (case w of [] \<Rightarrow> - 97 | c # _ \<Rightarrow> int (of_char c) - 97)"

definition bump :: "(string \<times> int) list \<Rightarrow> string \<Rightarrow> (string \<times> int) list" where
  "bump b w = AList.update w ((case map_of b w of None \<Rightarrow> 0 | Some c \<Rightarrow> c) + 1) b"

definition count_word :: "local_results \<Rightarrow> int \<Rightarrow> string \<Rightarrow> local_results" where
  "count_word lr l w = AList.update l (bump (case map_of lr l of None \<Rightarrow> [] | Some b \<Rightarrow> b) w) lr"

fun scan_tokens :: "local_results \<Rightarrow> string list \<Rightarrow> local_results" where
  "scan_tokens lr [] = lr"
| "scan_tokens lr (t # ts) =
     (let w = clean_word t
      in if w \<noteq> []
         then (let li = letter_index w
               in if 0 \<le> li \<and> li < int NUM_LETTERS
                  then scan_tokens (count_word lr li w) ts
                  else scan_tokens lr ts)
         else scan_tokens lr ts)"

text \<open>
  The two nested loops "Update shared results": the calls
  \<^verbatim>\<open>add_table(data->results[letter_index], entry.first, file_id)\<close> in the order in which
  they are made, each as the pair (shard index, word).
\<close>

definition merge_calls :: "local_results \<Rightarrow> (nat \<times> string) list" where
  "merge_calls lr = concat (map (\<lambda>(l, b). map (\<lambda>(w, c). (nat l, w)) b) lr)"

definition file_calls :: "string \<Rightarrow> (nat \<times> string) list" where
  "file_calls content = merge_calls (scan_tokens [] (tokens content))"

section \<open>The map phase as a transition system\<close>

text \<open>
  A manifest position is a file that cannot be opened (\<open>None\<close>) or the bytes of the file.
\<close>

type_synonym files = "string option list"

text \<open>
  Where a mapper thread stands:
  \<^item> \<open>Fetch\<close>: at the top of \<^verbatim>\<open>while (true)\<close>, about to take \<^verbatim>\<open>queue_lock\<close>;
  \<^item> \<open>Merge file_id cs\<close>: in the loops "Update shared results" of the file \<open>file_id\<close>,
    with the calls of \<^verbatim>\<open>add_table\<close> in \<open>cs\<close> still to make;
  \<^item> \<open>AtBarrier\<close>: out of the loop, at \<^verbatim>\<open>pthread_barrier_wait\<close>.
\<close>

datatype pc = Fetch | Merge nat "(nat \<times> string) list" | AtBarrier

text \<open>
  The fields of \<^verbatim>\<open>ThreadData\<close> that the workers use, and the mapper threads.
\<close>

record state =
  file_queue :: "nat list"
  results :: "table list"
  mappers :: "pc list"

text \<open>
  \<^verbatim>\<open>main\<close>: the queue holds \<open>0, ..., nr_files - 1\<close> in this order, the 26 tables are empty,
  \<open>nr_mappers\<close> mapper threads are created.
\<close>

definition init :: "nat \<Rightarrow> files \<Rightarrow> state" where
  "init nr_mappers fs =
     \<lparr>file_queue = [0 ..< length fs],
      results = replicate NUM_LETTERS [],
      mappers = replicate nr_mappers Fetch\<rparr>"

text \<open>
  One step of mapper thread \<open>i\<close>. A section of code that runs under a mutex is one step, and
  so is the code that touches only the thread's own variables:
  \<^item> at \<open>Fetch\<close>, the section under \<^verbatim>\<open>queue_lock\<close>: on an empty queue \<^verbatim>\<open>file_id\<close> stays
    \<open>-1\<close> and the thread leaves the loop; otherwise it pops the head, opens the file
    (\<^verbatim>\<open>continue\<close> when that fails), and fills \<^verbatim>\<open>local_results\<close>;
  \<^item> at \<open>Merge\<close>, one call of \<^verbatim>\<open>add_table\<close>, under the lock of its shard; after the last
    call the thread is back at the top of the loop.
  A thread at the barrier, and a thread that does not exist, do nothing. The queue only
  ever holds indices below \<open>length fs\<close> (\<open>shape_queue_tail\<close> below); the model treats an
  index out of range as a file that cannot be opened.
\<close>

definition step :: "files \<Rightarrow> state \<Rightarrow> nat \<Rightarrow> state" where
  "step fs s i =
     (if length (mappers s) \<le> i then s
      else case mappers s ! i of
        AtBarrier \<Rightarrow> s
      | Fetch \<Rightarrow>
          (case file_queue s of
             [] \<Rightarrow> s\<lparr>mappers := (mappers s)[i := AtBarrier]\<rparr>
           | file_id # q \<Rightarrow>
               (case (if file_id < length fs then fs ! file_id else None) of
                  None \<Rightarrow> s\<lparr>file_queue := q\<rparr>
                | Some content \<Rightarrow>
                    s\<lparr>file_queue := q,
                      mappers := (mappers s)[i := Merge file_id (file_calls content)]\<rparr>))
      | Merge file_id [] \<Rightarrow> s\<lparr>mappers := (mappers s)[i := Fetch]\<rparr>
      | Merge file_id ((l, w) # cs) \<Rightarrow>
          s\<lparr>results := (results s)[l := add_table (results s ! l) w file_id],
            mappers := (mappers s)[i := Merge file_id cs]\<rparr>)"

text \<open>
  An interleaving of the mapper threads is a schedule: the list of the threads that take
  the steps, in order.
\<close>

definition exec :: "files \<Rightarrow> nat list \<Rightarrow> state \<Rightarrow> state" where
  "exec fs sched s = foldl (step fs) s sched"

text \<open>The map phase is over when every mapper is at the barrier.\<close>

definition map_done :: "state \<Rightarrow> bool" where
  "map_done s = list_all (\<lambda>p. p = AtBarrier) (mappers s)"

text \<open>
  What a step takes from the queue, and the dequeues of a schedule in the order in which
  they happen, each as (mapper, file index).
\<close>

definition dequeued :: "state \<Rightarrow> nat \<Rightarrow> nat option" where
  "dequeued s i =
     (if i < length (mappers s) \<and> mappers s ! i = Fetch
      then (case file_queue s of [] \<Rightarrow> None | file_id # q \<Rightarrow> Some file_id)
      else None)"

fun dequeues :: "files \<Rightarrow> state \<Rightarrow> nat list \<Rightarrow> (nat \<times> nat) list" where
  "dequeues fs s [] = []"
| "dequeues fs s (i # sched) =
     (case dequeued s i of
        None \<Rightarrow> dequeues fs (step fs s i) sched
      | Some file_id \<Rightarrow> (i, file_id) # dequeues fs (step fs s i) sched)"

section \<open>Reducer\<close>

text \<open>The comparison passed to \<^verbatim>\<open>std::sort\<close>.\<close>

definition entry_before :: "WordEntry \<Rightarrow> WordEntry \<Rightarrow> bool" where
  "entry_before a b =
     (if length (file_ids a) \<noteq> length (file_ids b)
      then length (file_ids a) > length (file_ids b)
      else word a < word b)"

text \<open>
  \<^verbatim>\<open>std::sort\<close> returns a permutation of its input that is ordered by the comparison.
  Sorting by insertion computes one; \<open>sorted_entries_unique\<close> below shows that on entries
  with distinct words there is no other.
\<close>

fun insert_entry :: "WordEntry \<Rightarrow> WordEntry list \<Rightarrow> WordEntry list" where
  "insert_entry e [] = [e]"
| "insert_entry e (x # xs) =
     (if entry_before x e then x # insert_entry e xs else e # x # xs)"

definition sort_entries :: "WordEntry list \<Rightarrow> WordEntry list" where
  "sort_entries es = foldr insert_entry es []"

text \<open>The copy of a shard's table into \<^verbatim>\<open>words_array\<close>, sorted.\<close>

definition words_array :: "table \<Rightarrow> WordEntry list" where
  "words_array t = sort_entries (map snd t)"

text \<open>\<^verbatim>\<open>std::to_string(int)\<close>.\<close>

fun digits :: "nat \<Rightarrow> string" where
  "digits n = (if n < 10 then [char_of (48 + n)] else digits (n div 10) @ [char_of (48 + n mod 10)])"

definition to_string :: "int \<Rightarrow> string" where
  "to_string i = (if i < 0 then CHR ''-'' # digits (nat (- i)) else digits (nat i))"

definition join_ids :: "int list \<Rightarrow> string" where
  "join_ids ids = foldl (\<lambda>a b. if a = [] then to_string b else a @ '' '' @ to_string b) [] ids"

definition format_entry :: "WordEntry \<Rightarrow> string" where
  "format_entry e = word e @ '':['' @ join_ids (file_ids e) @ '']'' @ [CHR 0x0A]"

definition artifact :: "table \<Rightarrow> string" where
  "artifact t = concat (map format_entry (words_array t))"

definition letter_char :: "nat \<Rightarrow> char" where
  "letter_char l = char_of (97 + l)"

definition sink_name :: "nat \<Rightarrow> string" where
  "sink_name l = letter_char l # ''.txt''"

text \<open>
  What the reducers leave behind: the output files by name, and the lines on \<^verbatim>\<open>std::cerr\<close>.
\<close>

record outputs =
  sinks :: "string \<rightharpoonup> string"
  cerr :: "string list"

text \<open>
  The loop over the shards of one reducer. \<open>can_create\<close> says for which names the
  \<^verbatim>\<open>std::ofstream\<close> opens. When it does not, the reducer writes to \<^verbatim>\<open>std::cerr\<close> and
  returns (\<^verbatim>\<open>delete args; return nullptr;\<close>).
\<close>

fun reducer_loop :: "(string \<Rightarrow> bool) \<Rightarrow> table list \<Rightarrow> nat list \<Rightarrow> outputs \<Rightarrow> outputs" where
  "reducer_loop can_create rs [] out = out"
| "reducer_loop can_create rs (letter # rest) out =
     (if \<not> can_create (sink_name letter)
      then out\<lparr>cerr := cerr out @ [''Error creating output file for letter '' @ [letter_char letter]]\<rparr>
      else reducer_loop can_create rs rest
             (out\<lparr>sinks := (sinks out)(sink_name letter \<mapsto> artifact (rs ! letter))\<rparr>))"

text \<open>
  The first and one past the last shard of a reducer. The ranks and the count are numbers of
  threads, so that the products stay far below the range of \<^verbatim>\<open>int\<close>; on the naturals \<open>div\<close>
  is the division of C.
\<close>

definition start_index :: "nat \<Rightarrow> nat \<Rightarrow> nat" where
  "start_index reducer_id num_reducers = reducer_id * NUM_LETTERS div num_reducers"

definition end_index :: "nat \<Rightarrow> nat \<Rightarrow> nat" where
  "end_index reducer_id num_reducers =
     min NUM_LETTERS ((reducer_id + 1) * NUM_LETTERS div num_reducers)"

definition reducer :: "(string \<Rightarrow> bool) \<Rightarrow> table list \<Rightarrow> nat \<Rightarrow> nat \<Rightarrow> outputs \<Rightarrow> outputs" where
  "reducer can_create rs reducer_id num_reducers out =
     reducer_loop can_create rs
       [start_index reducer_id num_reducers ..< end_index reducer_id num_reducers] out"

text \<open>
  The reducers with the ranks in \<open>order\<close>, one after the other. They read the tables and
  write files with different names, so that running them one by one in any order of the
  ranks stands for running them together.
\<close>

definition reduce_phase ::
    "(string \<Rightarrow> bool) \<Rightarrow> table list \<Rightarrow> nat \<Rightarrow> nat list \<Rightarrow> outputs \<Rightarrow> outputs" where
  "reduce_phase can_create rs num_reducers order out =
     foldl (\<lambda>out reducer_id. reducer can_create rs reducer_id num_reducers out) out order"

section \<open>Notions used in the statements and the proofs\<close>

text \<open>The words of a file as the mapper counts them: the cleaned tokens that are not empty.\<close>

definition file_words :: "string \<Rightarrow> string list" where
  "file_words content = filter (\<lambda>w. w \<noteq> []) (map clean_word (tokens content))"

text \<open>The words of a bucket of \<^verbatim>\<open>local_results\<close>.\<close>

definition bkeys :: "(string \<times> int) list \<Rightarrow> string set" where
  "bkeys b = fst ` set b"

text \<open>\<^verbatim>\<open>local_results\<close> is a map of maps: keys are distinct, and a bucket holds words of its letter.\<close>

definition lr_ok :: "local_results \<Rightarrow> bool" where
  "lr_ok lr = (distinct (map fst lr) \<and>
     (\<forall>(l, b) \<in> set lr. distinct (map fst b) \<and> (\<forall>w \<in> bkeys b. l = letter_index w)))"

text \<open>The pairs (letter index, word) that \<^verbatim>\<open>local_results\<close> holds.\<close>

definition lr_pairs :: "local_results \<Rightarrow> (int \<times> string) set" where
  "lr_pairs lr = {(l, w). \<exists>b. map_of lr l = Some b \<and> w \<in> bkeys b}"

text \<open>The file ids that a table holds for a word (none when the word is not a key).\<close>

definition ids_of :: "table \<Rightarrow> string \<Rightarrow> int set" where
  "ids_of t w = (case map_of t w of None \<Rightarrow> {} | Some e \<Rightarrow> set (file_ids e))"

text \<open>An entry under the key \<open>k\<close>: its word is the key, its ids are strictly increasing and not empty.\<close>

definition entry_ok :: "string \<Rightarrow> WordEntry \<Rightarrow> bool" where
  "entry_ok k e = (word e = k \<and> sorted_wrt (<) (file_ids e) \<and> file_ids e \<noteq> [])"

text \<open>A table is a map (no key twice) of such entries.\<close>

definition table_ok :: "table \<Rightarrow> bool" where
  "table_ok t = (distinct (map fst t) \<and> (\<forall>k e. map_of t k = Some e \<longrightarrow> entry_ok k e))"

text \<open>Every call of \<^verbatim>\<open>add_table\<close> that the manifest asks for, as (file index, shard, word).\<close>

definition all_calls :: "files \<Rightarrow> (nat \<times> nat \<times> string) set" where
  "all_calls fs = {(f, l, w). f < length fs \<and> (\<exists>c. fs ! f = Some c \<and> (l, w) \<in> set (file_calls c))}"

text \<open>There are 26 tables, and the queue is a tail of the initial queue.\<close>

definition shape_inv :: "files \<Rightarrow> state \<Rightarrow> bool" where
  "shape_inv fs s = (length (results s) = NUM_LETTERS \<and> (\<exists>k. file_queue s = [k ..< length fs]))"

text \<open>A mapper is at the barrier only when the queue is empty.\<close>

definition barrier_inv :: "state \<Rightarrow> bool" where
  "barrier_inv s = ((\<exists>j < length (mappers s). mappers s ! j = AtBarrier) \<longrightarrow> file_queue s = [])"

text \<open>The calls that a mapper still has to make are calls of its file.\<close>

definition pcs_inv :: "files \<Rightarrow> state \<Rightarrow> bool" where
  "pcs_inv fs s = (\<forall>j < length (mappers s). \<forall>f cs. mappers s ! j = Merge f cs \<longrightarrow>
      (\<forall>(l, w) \<in> set cs. (f, l, w) \<in> all_calls fs))"

text \<open>Every table is well formed, holds words of its letter only, and ids from 1 on.\<close>

definition tables_inv :: "state \<Rightarrow> bool" where
  "tables_inv s = (\<forall>l < NUM_LETTERS. table_ok (results s ! l) \<and>
      (\<forall>k \<in> fst ` set (results s ! l). letter_index k = int l) \<and>
      (\<forall>k. \<forall>x \<in> ids_of (results s ! l) k. 1 \<le> x))"

text \<open>The calls not made yet: those of the files in the queue and those left to the mappers.\<close>

definition pending_of :: "files \<Rightarrow> nat list \<Rightarrow> pc list \<Rightarrow> (nat \<times> nat \<times> string) set" where
  "pending_of fs q ms =
     {(f, l, w). f \<in> set q \<and> (f, l, w) \<in> all_calls fs} \<union>
     {(f, l, w). \<exists>j < length ms. \<exists>cs. ms ! j = Merge f cs \<and> (l, w) \<in> set cs}"

text \<open>The calls not made yet in a state.\<close>

definition pending :: "files \<Rightarrow> state \<Rightarrow> (nat \<times> nat \<times> string) set" where
  "pending fs s = pending_of fs (file_queue s) (mappers s)"

text \<open>The calls whose id is in the tables.\<close>

definition stored :: "state \<Rightarrow> (nat \<times> nat \<times> string) set" where
  "stored s = {(f, l, w). l < NUM_LETTERS \<and> int f + 1 \<in> ids_of (results s ! l) w}"

text \<open>Every id in the tables comes from a call of the manifest, and every call of the manifest is in the tables or still to make.\<close>

definition account_inv :: "files \<Rightarrow> state \<Rightarrow> bool" where
  "account_inv fs s = (stored s \<subseteq> all_calls fs \<and> all_calls fs \<subseteq> stored s \<union> pending fs s)"

text \<open>The invariant of the map phase.\<close>

definition inv :: "files \<Rightarrow> state \<Rightarrow> bool" where
  "inv fs s = (shape_inv fs s \<and> barrier_inv s \<and> pcs_inv fs s \<and> tables_inv s \<and> account_inv fs s)"

text \<open>The shards that a reducer writes: those of its range before the first sink that cannot be created.\<close>

definition written :: "(string \<Rightarrow> bool) \<Rightarrow> nat list \<Rightarrow> nat list" where
  "written can_create ls = takeWhile (\<lambda>l. can_create (sink_name l)) ls"

text \<open>
  The work that is left in a state: every step of a mapper that is not at the barrier makes
  it smaller, so that the map phase ends under every schedule that keeps running the
  mappers.
\<close>

fun pc_weight :: "pc \<Rightarrow> nat" where
  "pc_weight Fetch = 1"
| "pc_weight (Merge f cs) = 2 + length cs"
| "pc_weight AtBarrier = 0"

definition file_weight :: "files \<Rightarrow> nat \<Rightarrow> nat" where
  "file_weight fs f =
     (case (if f < length fs then fs ! f else None) of
        None \<Rightarrow> 1
      | Some content \<Rightarrow> 3 + length (file_calls content))"

definition work :: "files \<Rightarrow> state \<Rightarrow> nat" where
  "work fs s = sum_list (map (file_weight fs) (file_queue s)) + sum_list (map pc_weight (mappers s))"

text \<open>The schedule that runs the mappers \<open>0, ..., m - 1\<close> in turn, \<open>n\<close> times.\<close>

definition round_robin :: "nat \<Rightarrow> nat \<Rightarrow> nat list" where
  "round_robin m n = concat (replicate n [0 ..< m])"

text \<open>A manifest of two files and a schedule of two mappers that ends the map phase.\<close>

definition example_files :: files where
  "example_files = [Some ''Cat cat DOG'', Some ''dog cat'']"

definition example_sched :: "nat list" where
  "example_sched = [0, 1, 1, 0, 0, 1, 1, 0, 1, 0, 0, 1]"

text \<open>A sequence of calls of \<^verbatim>\<open>add_table\<close> on one table, each as (word, file index).\<close>

definition add_all :: "table \<Rightarrow> (string \<times> nat) list \<Rightarrow> table" where
  "add_all t ops = foldl (\<lambda>t (w, file_id). add_table t w file_id) t ops"

text \<open>The ids of every entry of a table are strictly increasing, with no duplicates.\<close>

definition ids_increasing :: "table \<Rightarrow> bool" where
  "ids_increasing t = list_all (\<lambda>(k, e). sorted_wrt (<) (file_ids e) \<and> distinct (file_ids e)) t"

text \<open>Every key of the table of shard \<open>l\<close> maps to an entry with that word, and starts with the letter of the shard.\<close>

definition key_consistent :: "nat \<Rightarrow> table \<Rightarrow> bool" where
  "key_consistent l t = list_all (\<lambda>(k, e). word e = k \<and> k \<noteq> [] \<and> hd k = letter_char l) t"

text \<open>The ids that the manifest gives to a word: the 1-based positions of the files that
  opened and contain it.\<close>

definition expected_ids :: "files \<Rightarrow> string \<Rightarrow> int set" where
  "expected_ids fs w =
     {int f + 1 | f. f < length fs \<and> (\<exists>c. fs ! f = Some c \<and> w \<in> set (file_words c))}"

text \<open>The entries that the reducer writes for shard \<open>l\<close> after the map phase of a run, one
  line each, in this order.\<close>

definition emitted :: "files \<Rightarrow> nat \<Rightarrow> nat list \<Rightarrow> nat \<Rightarrow> WordEntry list" where
  "emitted fs nr_mappers sched l = words_array (results (exec fs sched (init nr_mappers fs)) ! l)"

definition empty_outputs :: outputs where
  "empty_outputs = \<lparr>sinks = Map.empty, cerr = []\<rparr>"

text \<open>
  A run of the program: the mappers under the schedule, then, once every mapper is at the
  barrier, the reducers. \<open>None\<close> when the schedule stops before the barrier opens.
\<close>

definition pipeline ::
    "files \<Rightarrow> nat \<Rightarrow> nat list \<Rightarrow> (string \<Rightarrow> bool) \<Rightarrow> nat \<Rightarrow> nat list \<Rightarrow> outputs option" where
  "pipeline fs nr_mappers sched can_create nr_reducers order =
     (let s = exec fs sched (init nr_mappers fs)
      in if map_done s
         then Some (reduce_phase can_create (results s) nr_reducers order empty_outputs)
         else None)"

text \<open>Sink creation that always succeeds, and sink creation that fails for one name only.\<close>

definition all_creatable :: "string \<Rightarrow> bool" where
  "all_creatable n = True"

definition fails_on :: "string \<Rightarrow> string \<Rightarrow> bool" where
  "fails_on bad n = (n \<noteq> bad)"

text \<open>
  The lock operations of \<^verbatim>\<open>add_table\<close>: \<^verbatim>\<open>pthread_mutex_lock(&result.lock)\<close> on entry and
  \<^verbatim>\<open>pthread_mutex_unlock(&result.lock)\<close> on exit, for the shard that the mapper passes.
\<close>

datatype lock_op = Lock nat | Unlock nat

definition add_table_locks :: "nat \<Rightarrow> lock_op list" where
  "add_table_locks l = [Lock l, Unlock l]"

text \<open>The lock operations of the loops "Update shared results" of one file.\<close>

definition merge_locks :: "(nat \<times> string) list \<Rightarrow> lock_op list" where
  "merge_locks cs = concat (map (\<lambda>(l, w). add_table_locks l) cs)"

definition acquisitions :: "nat \<Rightarrow> lock_op list \<Rightarrow> nat" where
  "acquisitions l trace = count_list trace (Lock l)"

text \<open>
  Whether the artifact of shard \<open>l\<close> is written: a reducer has \<open>l\<close> in its range and can create
  the sinks of the shards of its range up to and including \<open>l\<close>.
\<close>

definition shard_written :: "(string \<Rightarrow> bool) \<Rightarrow> nat \<Rightarrow> nat \<Rightarrow> bool" where
  "shard_written can_create num_reducers l =
     list_ex (\<lambda>i. start_index i num_reducers \<le> l \<and> l < end_index i num_reducers \<and>
                 list_all (\<lambda>k. can_create (sink_name k)) [start_index i num_reducers ..< Suc l])
       [0 ..< num_reducers]"

section \<open>Lemmas\<close>

subsection \<open>The words of a file and the calls of a mapper\<close>

lemma clean_word_chars:
  assumes "c \<in> set (clean_word t)"
  shows "97 \<le> (of_char c :: nat) \<and> (of_char c :: nat) \<le> 122"
proof -
  from assms obtain d where d: "isalpha d" "c = tolower d"
    by (auto simp: clean_word_def)
  show ?thesis
  proof (cases "65 \<le> (of_char d :: nat) \<and> (of_char d :: nat) \<le> 90")
    case True
    then have "(of_char c :: nat) = of_char d + 32"
      using d by (simp add: tolower_def)
    with True show ?thesis by simp
  next
    case False
    with d show ?thesis by (auto simp: tolower_def isalpha_def)
  qed
qed

lemma letter_index_clean:
  assumes "clean_word t \<noteq> []"
  shows "0 \<le> letter_index (clean_word t) \<and> letter_index (clean_word t) < 26"
proof -
  from assms obtain c cs where w: "clean_word t = c # cs" by (cases "clean_word t") auto
  then have "c \<in> set (clean_word t)" by simp
  from clean_word_chars[OF this] show ?thesis
    by (simp add: letter_index_def w)
qed

lemma file_words_letter:
  "w \<in> set (file_words content) \<Longrightarrow> w \<noteq> [] \<and> 0 \<le> letter_index w \<and> letter_index w < 26"
  using letter_index_clean by (auto simp: file_words_def)

lemma bkeys_Nil: "bkeys [] = {}"
  by (simp add: bkeys_def)

lemma bump_dom: "dom (map_of (bump b w)) = insert w (dom (map_of b))"
  by (simp add: bump_def update_conv')

lemma bump_distinct: "distinct (map fst b) \<Longrightarrow> distinct (map fst (bump b w))"
  by (simp add: bump_def distinct_update)

lemma bump_keys: "bkeys (bump b w) = insert w (bkeys b)"
  using bump_dom[of b w] by (simp add: dom_map_of_conv_image_fst bkeys_def)

lemma count_word_pairs: "lr_pairs (count_word lr l w) = insert (l, w) (lr_pairs lr)"
proof -
  let ?b = "case map_of lr l of None \<Rightarrow> [] | Some b \<Rightarrow> b"
  have m: "map_of (count_word lr l w) = (map_of lr)(l \<mapsto> bump ?b w)"
    by (simp add: count_word_def update_conv')
  show ?thesis
    unfolding lr_pairs_def m
    by (cases "map_of lr l") (auto simp: bump_keys bkeys_Nil split: if_splits)
qed

lemma count_word_ok:
  assumes "lr_ok lr" "l = letter_index w"
  shows "lr_ok (count_word lr l w)"
proof -
  let ?b = "case map_of lr l of None \<Rightarrow> [] | Some b \<Rightarrow> b"
  have b: "distinct (map fst ?b) \<and> (\<forall>v \<in> bkeys ?b. l = letter_index v)"
    using assms(1) by (auto simp: lr_ok_def bkeys_Nil split: option.splits dest!: map_of_SomeD)
  have nb: "distinct (map fst (bump ?b w)) \<and> (\<forall>v \<in> bkeys (bump ?b w). l = letter_index v)"
    using b assms(2) by (simp add: bump_distinct bump_keys)
  have sub: "set (AList.update l (bump ?b w) lr) \<subseteq> insert (l, bump ?b w) (set lr)"
    by (induction lr) auto
  have "distinct (map fst b') \<and> (\<forall>v \<in> bkeys b'. l' = letter_index v)"
    if "(l', b') \<in> set (AList.update l (bump ?b w) lr)" for l' b'
  proof -
    from that sub have "(l', b') = (l, bump ?b w) \<or> (l', b') \<in> set lr" by blast
    then show ?thesis
    proof
      assume "(l', b') = (l, bump ?b w)"
      with nb show ?thesis by simp
    next
      assume "(l', b') \<in> set lr"
      with assms(1) show ?thesis unfolding lr_ok_def by blast
    qed
  qed
  moreover have "distinct (map fst (AList.update l (bump ?b w) lr))"
    using assms(1) by (simp add: lr_ok_def distinct_update)
  ultimately show ?thesis
    unfolding lr_ok_def count_word_def by blast
qed

lemma scan_tokens_spec:
  "lr_ok lr \<Longrightarrow>
   lr_ok (scan_tokens lr ts) \<and>
   lr_pairs (scan_tokens lr ts) =
     lr_pairs lr \<union> {(letter_index w, w) | w. w \<in> set (filter (\<lambda>w. w \<noteq> []) (map clean_word ts))}"
proof (induction ts arbitrary: lr)
  case Nil
  then show ?case by simp
next
  case (Cons t ts)
  show ?case
  proof (cases "clean_word t = []")
    case True
    with Cons show ?thesis by simp
  next
    case False
    note li = letter_index_clean[OF False]
    have ok: "lr_ok (count_word lr (letter_index (clean_word t)) (clean_word t))"
      using Cons.prems by (rule count_word_ok) simp
    from Cons.IH[OF ok] False li show ?thesis
      by (auto simp: Let_def NUM_LETTERS_def count_word_pairs)
  qed
qed

lemma merge_calls_set:
  assumes "lr_ok lr"
  shows "set (merge_calls lr) = (\<lambda>(l, w). (nat l, w)) ` lr_pairs lr"
proof -
  have d: "distinct (map fst lr)" using assms by (simp add: lr_ok_def)
  have db: "\<And>l b. (l, b) \<in> set lr \<Longrightarrow> distinct (map fst b)"
    using assms by (auto simp: lr_ok_def)
  have "lr_pairs lr = {(l, w). \<exists>b. (l, b) \<in> set lr \<and> w \<in> fst ` set b}"
    unfolding lr_pairs_def bkeys_def using d by simp
  then show ?thesis
    by (force simp: merge_calls_def)
qed

lemma merge_calls_distinct:
  assumes "lr_ok lr"
  shows "distinct (map snd (merge_calls lr))"
  using assms
proof (induction lr)
  case Nil
  then show ?case by (simp add: merge_calls_def)
next
  case (Cons p lr)
  obtain l b where p: "p = (l, b)" by (cases p)
  have ok: "lr_ok lr" using Cons.prems by (simp add: lr_ok_def)
  have m: "map snd (merge_calls (p # lr)) = map fst b @ map snd (merge_calls lr)"
    by (simp add: merge_calls_def p comp_def case_prod_unfold)
  have db: "distinct (map fst b)" "\<forall>w \<in> fst ` set b. l = letter_index w"
    using Cons.prems by (auto simp: lr_ok_def p bkeys_def)
  have other: "\<And>l' b' w. (l', b') \<in> set lr \<Longrightarrow> w \<in> fst ` set b' \<Longrightarrow> l' = letter_index w \<and> l' \<noteq> l"
    using Cons.prems by (force simp: lr_ok_def p bkeys_def)
  have "set (map snd (merge_calls lr)) = {w. \<exists>l' b'. (l', b') \<in> set lr \<and> w \<in> fst ` set b'}"
    by (force simp: merge_calls_def)
  with db other have "set (map fst b) \<inter> set (map snd (merge_calls lr)) = {}"
    by fastforce
  with db Cons.IH[OF ok] show ?case
    unfolding m by simp
qed

lemma file_calls_set:
  "set (file_calls content) = {(nat (letter_index w), w) | w. w \<in> set (file_words content)}"
proof -
  have ok: "lr_ok []" by (simp add: lr_ok_def)
  have e: "lr_pairs [] = {}" by (simp add: lr_pairs_def)
  from scan_tokens_spec[OF ok, of "tokens content"] show ?thesis
    unfolding file_calls_def
    by (auto simp: merge_calls_set e file_words_def)
qed

lemma file_calls_distinct: "distinct (map snd (file_calls content))"
proof -
  have ok: "lr_ok []" by (simp add: lr_ok_def)
  from scan_tokens_spec[OF ok, of "tokens content"] show ?thesis
    unfolding file_calls_def by (simp add: merge_calls_distinct)
qed

subsection \<open>One call of add_table\<close>

lemma lower_bound_Cons:
  "lower_bound (x # xs) v = (if x < v then Suc (lower_bound xs v) else 0)"
  by (simp add: lower_bound_def)

lemma lower_bound_le: "lower_bound xs v \<le> length xs"
  by (simp add: lower_bound_def length_takeWhile_le)

lemma lower_bound_absent:
  "sorted_wrt (<) xs \<Longrightarrow>
   (lower_bound xs v = length xs \<or> xs ! lower_bound xs v \<noteq> v) \<longleftrightarrow> v \<notin> set xs"
proof (induction xs)
  case Nil
  then show ?case by (simp add: lower_bound_def)
next
  case (Cons x xs)
  show ?case
  proof (cases "x < v")
    case True
    with Cons show ?thesis by (simp add: lower_bound_Cons)
  next
    case False
    with Cons.prems show ?thesis by (force simp: lower_bound_Cons)
  qed
qed

lemma set_vec_insert: "set (vec_insert it v xs) = insert v (set xs)"
proof -
  have "set (take it xs) \<union> set (drop it xs) = set xs"
    by (metis append_take_drop_id set_append)
  then show ?thesis by (auto simp: vec_insert_def)
qed

lemma sorted_vec_insert:
  "sorted_wrt (<) xs \<Longrightarrow> v \<notin> set xs \<Longrightarrow> sorted_wrt (<) (vec_insert (lower_bound xs v) v xs)"
proof (induction xs)
  case Nil
  then show ?case by (simp add: vec_insert_def lower_bound_def)
next
  case (Cons x xs)
  show ?case
  proof (cases "x < v")
    case True
    have "sorted_wrt (<) (vec_insert (lower_bound xs v) v xs)"
      using Cons by simp
    moreover have "\<forall>y \<in> set (vec_insert (lower_bound xs v) v xs). x < y"
      using Cons.prems True by (simp add: set_vec_insert)
    ultimately show ?thesis using True
      by (simp add: lower_bound_Cons vec_insert_def)
  next
    case False
    with Cons.prems have "v < x" by auto
    with Cons.prems False show ?thesis
      by (auto simp: lower_bound_Cons vec_insert_def)
  qed
qed

lemma table_ok_Nil: "table_ok []"
  by (simp add: table_ok_def)

lemma add_table_other: "w' \<noteq> w \<Longrightarrow> map_of (add_table t w f) w' = map_of t w'"
  by (simp add: add_table_def update_conv' Let_def split: option.splits)

lemma add_table_distinct: "distinct (map fst t) \<Longrightarrow> distinct (map fst (add_table t w f))"
  by (simp add: add_table_def distinct_update Let_def split: option.splits)

lemma add_table_same:
  assumes "\<forall>e. map_of t w = Some e \<longrightarrow> entry_ok w e"
  shows "\<exists>e'. map_of (add_table t w f) w = Some e' \<and> entry_ok w e' \<and>
           set (file_ids e') = insert (int f + 1) (ids_of t w)"
proof (cases "map_of t w")
  case None
  then show ?thesis
    by (simp add: add_table_def update_conv' entry_ok_def ids_of_def)
next
  case (Some e)
  with assms have ok: "entry_ok w e" by simp
  then have srt: "sorted_wrt (<) (file_ids e)" by (simp add: entry_ok_def)
  show ?thesis
  proof (cases "int f + 1 \<in> set (file_ids e)")
    case True
    with lower_bound_absent[OF srt, of "int f + 1"]
    have "add_table t w f = t"
      by (simp add: add_table_def Some Let_def)
    with Some ok True show ?thesis
      by (auto simp: ids_of_def)
  next
    case False
    with lower_bound_absent[OF srt, of "int f + 1"]
    have "add_table t w f =
        AList.update w (e\<lparr>file_ids := vec_insert (lower_bound (file_ids e) (int f + 1)) (int f + 1) (file_ids e)\<rparr>) t"
      by (simp add: add_table_def Some Let_def)
    moreover have "vec_insert (lower_bound (file_ids e) (int f + 1)) (int f + 1) (file_ids e) \<noteq> []"
      by (simp add: vec_insert_def)
    ultimately show ?thesis
      using ok Some sorted_vec_insert[OF srt False]
      by (simp add: update_conv' entry_ok_def ids_of_def set_vec_insert)
  qed
qed

lemma add_table_ok:
  assumes "table_ok t"
  shows "table_ok (add_table t w f)"
proof -
  have d: "distinct (map fst (add_table t w f))"
    using assms by (simp add: table_ok_def add_table_distinct)
  have a: "\<forall>e. map_of t w = Some e \<longrightarrow> entry_ok w e"
    using assms by (simp add: table_ok_def)
  have "entry_ok k e" if "map_of (add_table t w f) k = Some e" for k e
  proof (cases "k = w")
    case True
    with add_table_same[OF a, of f] that show ?thesis by auto
  next
    case False
    with that assms show ?thesis by (simp add: add_table_other table_ok_def)
  qed
  with d show ?thesis by (simp add: table_ok_def)
qed

lemma add_table_ids:
  assumes "table_ok t"
  shows "ids_of (add_table t w f) w' = (if w' = w then insert (int f + 1) (ids_of t w) else ids_of t w')"
proof -
  have a: "\<forall>e. map_of t w = Some e \<longrightarrow> entry_ok w e"
    using assms by (simp add: table_ok_def)
  show ?thesis
  proof (cases "w' = w")
    case True
    from add_table_same[OF a, of f] obtain e' where
      e': "map_of (add_table t w f) w = Some e'"
          "set (file_ids e') = insert (int f + 1) (ids_of t w)"
      by blast
    have "ids_of (add_table t w f) w = set (file_ids e')"
      by (simp add: ids_of_def e'(1))
    with e'(2) True show ?thesis by simp
  next
    case False
    then show ?thesis by (simp add: ids_of_def add_table_other)
  qed
qed

lemma ids_of_dom:
  assumes "table_ok t"
  shows "w \<in> fst ` set t \<longleftrightarrow> ids_of t w \<noteq> {}"
proof (cases "map_of t w")
  case None
  then have "w \<notin> fst ` set t" by (simp add: map_of_eq_None_iff)
  with None show ?thesis by (simp add: ids_of_def)
next
  case (Some e)
  with assms have "file_ids e \<noteq> []" by (simp add: table_ok_def entry_ok_def)
  moreover from Some have "w \<in> fst ` set t" by (metis map_of_eq_None_iff option.distinct(1))
  ultimately show ?thesis using Some by (simp add: ids_of_def)
qed

subsection \<open>The steps of a mapper, case by case\<close>

lemma step_stutter:
  "length (mappers s) \<le> i \<or> mappers s ! i = AtBarrier \<Longrightarrow> step fs s i = s"
  by (auto simp: step_def)

lemma step_exit:
  "i < length (mappers s) \<Longrightarrow> mappers s ! i = Fetch \<Longrightarrow> file_queue s = [] \<Longrightarrow>
   step fs s i = s\<lparr>mappers := (mappers s)[i := AtBarrier]\<rparr>"
  by (simp add: step_def)

lemma step_skip:
  "i < length (mappers s) \<Longrightarrow> mappers s ! i = Fetch \<Longrightarrow> file_queue s = f # q \<Longrightarrow>
   length fs \<le> f \<or> fs ! f = None \<Longrightarrow>
   step fs s i = s\<lparr>file_queue := q\<rparr>"
  by (auto simp: step_def)

lemma step_take:
  "i < length (mappers s) \<Longrightarrow> mappers s ! i = Fetch \<Longrightarrow> file_queue s = f # q \<Longrightarrow>
   f < length fs \<Longrightarrow> fs ! f = Some c \<Longrightarrow>
   step fs s i = s\<lparr>file_queue := q, mappers := (mappers s)[i := Merge f (file_calls c)]\<rparr>"
  by (simp add: step_def)

lemma step_back:
  "i < length (mappers s) \<Longrightarrow> mappers s ! i = Merge f [] \<Longrightarrow>
   step fs s i = s\<lparr>mappers := (mappers s)[i := Fetch]\<rparr>"
  by (simp add: step_def)

lemma step_add:
  "i < length (mappers s) \<Longrightarrow> mappers s ! i = Merge f ((l, w) # cs) \<Longrightarrow>
   step fs s i = s\<lparr>results := (results s)[l := add_table (results s ! l) w f],
                    mappers := (mappers s)[i := Merge f cs]\<rparr>"
  by (simp add: step_def)

lemma step_kind:
  obtains
    (stutter) "length (mappers s) \<le> i \<or> mappers s ! i = AtBarrier"
  | (exit) "i < length (mappers s)" "mappers s ! i = Fetch" "file_queue s = []"
  | (skip) f q where "i < length (mappers s)" "mappers s ! i = Fetch" "file_queue s = f # q"
      "length fs \<le> f \<or> fs ! f = None"
  | (take) f q c where "i < length (mappers s)" "mappers s ! i = Fetch" "file_queue s = f # q"
      "f < length fs" "fs ! f = Some c"
  | (again) f where "i < length (mappers s)" "mappers s ! i = Merge f []"
  | (add) f l w cs where "i < length (mappers s)" "mappers s ! i = Merge f ((l, w) # cs)"
proof (cases "i < length (mappers s)")
  case False
  then show ?thesis using stutter by simp
next
  case len: True
  show ?thesis
  proof (cases "mappers s ! i")
    case AtBarrier
    then show ?thesis using stutter by simp
  next
    case Fetch
    show ?thesis
    proof (cases "file_queue s")
      case Nil
      then show ?thesis using exit len Fetch by simp
    next
      case (Cons f q)
      show ?thesis
      proof (cases "f < length fs")
        case False
        then show ?thesis using skip[of f q] len Fetch Cons by simp
      next
        case True
        then show ?thesis using skip[of f q] take[of f q] len Fetch Cons
          by (cases "fs ! f") auto
      qed
    qed
  next
    case (Merge f cs)
    show ?thesis
    proof (cases cs)
      case Nil
      then show ?thesis using again len Merge by simp
    next
      case (Cons c cs')
      then show ?thesis using add[of f "fst c" "snd c" cs'] len Merge by simp
    qed
  qed
qed

subsection \<open>Invariants of the map phase\<close>

lemma all_calls_letter:
  assumes "(f, l, w) \<in> all_calls fs"
  shows "l < NUM_LETTERS \<and> letter_index w = int l"
proof -
  from assms obtain c where "(l, w) \<in> set (file_calls c)" by (auto simp: all_calls_def)
  then obtain "l = nat (letter_index w)" "w \<in> set (file_words c)"
    by (auto simp: file_calls_set)
  with file_words_letter[of w c] show ?thesis by (auto simp: NUM_LETTERS_def)
qed

lemma shape_inv_init: "shape_inv fs (init m fs)"
  by (auto simp: shape_inv_def init_def)

lemma barrier_inv_init: "barrier_inv (init m fs)"
  by (auto simp: barrier_inv_def init_def)

lemma pcs_inv_init: "pcs_inv fs (init m fs)"
  by (simp add: pcs_inv_def init_def)

lemma tables_inv_init: "tables_inv (init m fs)"
  by (simp add: tables_inv_def init_def table_ok_Nil ids_of_def)

lemma upt_tail: "[k ..< n] = f # q \<Longrightarrow> q = [Suc k ..< n] \<and> f = k \<and> k < n"
  by (cases "k < n") (auto simp: upt_conv_Cons)

lemma shape_queue_tail:
  assumes "shape_inv fs s" "file_queue s = f # q"
  shows "(\<exists>k. q = [k ..< length fs]) \<and> f < length fs \<and> f \<notin> set q"
proof -
  from assms obtain k where "[k ..< length fs] = f # q" by (auto simp: shape_inv_def)
  from upt_tail[OF this] show ?thesis by auto
qed

lemma shape_inv_step:
  assumes "shape_inv fs s"
  shows "shape_inv fs (step fs s i)"
proof (cases rule: step_kind[where s=s and i=i and fs=fs])
  case stutter
  then show ?thesis using assms by (simp add: step_stutter)
next
  case exit
  then show ?thesis using assms by (simp add: step_exit shape_inv_def)
next
  case (skip f q)
  then show ?thesis using assms shape_queue_tail[OF assms skip(3)]
    by (simp add: step_skip shape_inv_def)
next
  case (take f q c)
  then show ?thesis using assms shape_queue_tail[OF assms take(3)]
    by (simp add: step_take shape_inv_def)
next
  case (again f)
  then show ?thesis using assms by (simp add: step_back shape_inv_def)
next
  case (add f l w cs)
  then show ?thesis using assms by (simp add: step_add shape_inv_def)
qed

lemma barrier_inv_step:
  assumes "barrier_inv s"
  shows "barrier_inv (step fs s i)"
proof (cases rule: step_kind[where s=s and i=i and fs=fs])
  case stutter
  then show ?thesis using assms by (simp add: step_stutter)
next
  case exit
  then show ?thesis by (simp add: step_exit barrier_inv_def)
next
  case (skip f q)
  then show ?thesis using assms by (auto simp: step_skip barrier_inv_def)
next
  case (take f q c)
  have "\<not> (\<exists>j < length (mappers s). mappers s ! j = AtBarrier)"
    using assms take(3) by (auto simp: barrier_inv_def)
  then show ?thesis using take
    by (auto simp: step_take barrier_inv_def nth_list_update)
next
  case (again f)
  then show ?thesis using assms
    by (auto simp: step_back barrier_inv_def nth_list_update split: if_splits)
next
  case (add f l w cs)
  then show ?thesis using assms
    by (auto simp: step_add barrier_inv_def nth_list_update split: if_splits)
qed

lemma pcs_inv_step:
  assumes "pcs_inv fs s"
  shows "pcs_inv fs (step fs s i)"
proof (cases rule: step_kind[where s=s and i=i and fs=fs])
  case stutter
  then show ?thesis using assms by (simp add: step_stutter)
next
  case exit
  then show ?thesis using assms
    by (auto simp: step_exit pcs_inv_def nth_list_update split: if_splits)
next
  case (skip f q)
  then show ?thesis using assms by (simp add: step_skip pcs_inv_def)
next
  case (take f q c)
  have "\<forall>(l, w) \<in> set (file_calls c). (f, l, w) \<in> all_calls fs"
    using take by (auto simp: all_calls_def)
  then show ?thesis using take assms
    by (auto simp: step_take pcs_inv_def nth_list_update split: if_splits)
next
  case (again f)
  then show ?thesis using assms
    by (auto simp: step_back pcs_inv_def nth_list_update split: if_splits)
next
  case (add f l w cs)
  have "\<forall>(l', w') \<in> set cs. (f, l', w') \<in> all_calls fs"
    using add assms unfolding pcs_inv_def by fastforce
  then show ?thesis using add assms
    by (auto simp: step_add pcs_inv_def nth_list_update split: if_splits)
qed

lemma tables_inv_step:
  assumes "tables_inv s" "pcs_inv fs s" "shape_inv fs s"
  shows "tables_inv (step fs s i)"
proof (cases rule: step_kind[where s=s and i=i and fs=fs])
  case stutter
  then show ?thesis using assms by (simp add: step_stutter)
next
  case exit
  then show ?thesis using assms by (simp add: step_exit tables_inv_def)
next
  case (skip f q)
  then show ?thesis using assms by (simp add: step_skip tables_inv_def)
next
  case (take f q c)
  then show ?thesis using assms by (simp add: step_take tables_inv_def)
next
  case (again f)
  then show ?thesis using assms by (simp add: step_back tables_inv_def)
next
  case (add f l w cs)
  have c: "(f, l, w) \<in> all_calls fs"
    using add assms(2) unfolding pcs_inv_def by fastforce
  note lw = all_calls_letter[OF c]
  have len: "length (results s) = NUM_LETTERS" using assms(3) by (simp add: shape_inv_def)
  have old: "table_ok (results s ! l)" "\<forall>k \<in> fst ` set (results s ! l). letter_index k = int l"
      "\<forall>k. \<forall>x \<in> ids_of (results s ! l) k. 1 \<le> x"
    using assms(1) lw unfolding tables_inv_def by blast+
  have pos: "\<forall>k. \<forall>x \<in> ids_of (add_table (results s ! l) w f) k. 1 \<le> x"
    using old(3) by (simp add: add_table_ids[OF old(1)])
  have new: "table_ok (add_table (results s ! l) w f)"
    using old(1) by (rule add_table_ok)
  have keys: "fst ` set (add_table (results s ! l) w f) = insert w (fst ` set (results s ! l))"
  proof -
    have "dom (map_of (add_table (results s ! l) w f)) = insert w (dom (map_of (results s ! l)))"
    proof (rule set_eqI)
      fix k
      show "k \<in> dom (map_of (add_table (results s ! l) w f)) \<longleftrightarrow>
            k \<in> insert w (dom (map_of (results s ! l)))"
      proof (cases "k = w")
        case True
        have "\<forall>e. map_of (results s ! l) w = Some e \<longrightarrow> entry_ok w e"
          using old(1) by (simp add: table_ok_def)
        from add_table_same[OF this, of f] True show ?thesis by auto
      next
        case False
        then show ?thesis by (simp add: add_table_other domIff)
      qed
    qed
    then show ?thesis by (simp add: dom_map_of_conv_image_fst)
  qed
  have "table_ok ((results s)[l := add_table (results s ! l) w f] ! l') \<and>
        (\<forall>k \<in> fst ` set ((results s)[l := add_table (results s ! l) w f] ! l'). letter_index k = int l') \<and>
        (\<forall>k. \<forall>x \<in> ids_of ((results s)[l := add_table (results s ! l) w f] ! l') k. 1 \<le> x)"
    if "l' < NUM_LETTERS" for l'
  proof (cases "l' = l")
    case True
    then show ?thesis using new keys old(2) pos lw len by simp
  next
    case False
    then show ?thesis using assms(1) that by (simp add: tables_inv_def)
  qed
  then show ?thesis using add by (simp add: step_add tables_inv_def)
qed

lemma in_pending_queue:
  "f \<in> set q \<Longrightarrow> (f, l, w) \<in> all_calls fs \<Longrightarrow> (f, l, w) \<in> pending_of fs q ms"
  by (simp add: pending_of_def)

lemma in_pending_thread:
  "j < length ms \<Longrightarrow> ms ! j = Merge f cs \<Longrightarrow> (l, w) \<in> set cs \<Longrightarrow> (f, l, w) \<in> pending_of fs q ms"
  unfolding pending_of_def by blast

lemma pending_cases:
  assumes "(f, l, w) \<in> pending_of fs q ms"
  obtains
    (queue) "f \<in> set q" "(f, l, w) \<in> all_calls fs"
  | (thread) j cs where "j < length ms" "ms ! j = Merge f cs" "(l, w) \<in> set cs"
  using assms unfolding pending_of_def by blast

lemma pending_keep:
  assumes "(f, l, w) \<in> pending_of fs q ms"
    and "f \<in> set q \<Longrightarrow> (f, l, w) \<in> all_calls fs \<Longrightarrow> f \<in> set q' \<or> (\<exists>cs. p = Merge f cs \<and> (l, w) \<in> set cs)"
    and "\<And>cs. ms ! i = Merge f cs \<Longrightarrow> (l, w) \<in> set cs \<Longrightarrow> \<exists>cs'. p = Merge f cs' \<and> (l, w) \<in> set cs'"
    and "i < length ms"
  shows "(f, l, w) \<in> pending_of fs q' (ms[i := p])"
  using assms(1)
proof (cases rule: pending_cases)
  case queue
  from assms(2)[OF queue] show ?thesis
  proof
    assume "f \<in> set q'"
    with queue(2) show ?thesis by (intro in_pending_queue)
  next
    assume "\<exists>cs. p = Merge f cs \<and> (l, w) \<in> set cs"
    then obtain cs where "p = Merge f cs" "(l, w) \<in> set cs" by blast
    with assms(4) show ?thesis
      by (intro in_pending_thread[of i _ f cs]) simp_all
  qed
next
  case (thread j cs)
  show ?thesis
  proof (cases "j = i")
    case True
    with thread assms(3)[of cs] obtain cs' where "p = Merge f cs'" "(l, w) \<in> set cs'" by blast
    with assms(4) show ?thesis
      by (intro in_pending_thread[of i _ f cs']) simp_all
  next
    case False
    with thread show ?thesis
      by (intro in_pending_thread[of j _ f cs]) simp_all
  qed
qed

lemma account_inv_init: "account_inv fs (init m fs)"
proof -
  have "stored (init m fs) = {}"
    by (auto simp: stored_def init_def ids_of_def)
  moreover have "all_calls fs \<subseteq> pending fs (init m fs)"
    by (auto simp: pending_def pending_of_def init_def all_calls_def)
  ultimately show ?thesis by (simp add: account_inv_def)
qed

lemma stored_add:
  assumes "tables_inv s" "length (results s) = NUM_LETTERS" "l < NUM_LETTERS"
  shows "stored (s\<lparr>results := (results s)[l := add_table (results s ! l) w f], mappers := ms\<rparr>) =
         insert (f, l, w) (stored s)"
proof -
  have ok: "table_ok (results s ! l)" using assms by (simp add: tables_inv_def)
  have "(f', l', w') \<in> stored (s\<lparr>results := (results s)[l := add_table (results s ! l) w f], mappers := ms\<rparr>)
        \<longleftrightarrow> (f', l', w') \<in> insert (f, l, w) (stored s)" for f' l' w'
  proof (cases "l' = l")
    case True
    then show ?thesis using assms(2,3)
      by (auto simp: stored_def add_table_ids[OF ok])
  next
    case False
    then show ?thesis by (auto simp: stored_def)
  qed
  then show ?thesis by auto
qed

lemma account_exit:
  assumes "account_inv fs s"
    and exit: "i < length (mappers s)" "mappers s ! i = Fetch" "file_queue s = []"
  shows "account_inv fs (s\<lparr>mappers := (mappers s)[i := AtBarrier]\<rparr>)"
proof -
  have "x \<in> pending_of fs (file_queue s) ((mappers s)[i := AtBarrier])"
    if "x \<in> pending_of fs (file_queue s) (mappers s)" for x
  proof -
    obtain f l w where xe: "x = (f, l, w)" by (cases x)
    have "(f, l, w) \<in> pending_of fs (file_queue s) ((mappers s)[i := AtBarrier])"
    proof (rule pending_keep)
      show "(f, l, w) \<in> pending_of fs (file_queue s) (mappers s)" using that xe by simp
    qed (use exit in simp_all)
    with xe show ?thesis by simp
  qed
  then have pend: "pending fs s \<subseteq> pending fs (s\<lparr>mappers := (mappers s)[i := AtBarrier]\<rparr>)"
    by (simp add: pending_def subset_iff)
  have st: "stored (s\<lparr>mappers := (mappers s)[i := AtBarrier]\<rparr>) = stored s"
    by (simp add: stored_def)
  from assms(1) pend st show ?thesis
    unfolding account_inv_def by blast
qed

lemma account_skip:
  assumes "account_inv fs s"
    and skip: "file_queue s = f # q" "length fs \<le> f \<or> fs ! f = None"
  shows "account_inv fs (s\<lparr>file_queue := q\<rparr>)"
proof -
  have "x \<in> pending_of fs q (mappers s)"
    if x: "x \<in> pending_of fs (file_queue s) (mappers s)" for x
  proof -
    obtain f' l w where xe: "x = (f', l, w)" by (cases x)
    have ne: "f' \<noteq> f" if "(f', l, w) \<in> all_calls fs"
      using that skip(2) by (auto simp: all_calls_def)
    from x xe have "(f', l, w) \<in> pending_of fs (file_queue s) (mappers s)" by simp
    then have "(f', l, w) \<in> pending_of fs q (mappers s)"
    proof (cases rule: pending_cases)
      case queue
      with ne skip(1) have "f' \<in> set q" by simp
      then show ?thesis using queue(2) by (rule in_pending_queue)
    next
      case (thread j cs)
      then show ?thesis by (rule in_pending_thread)
    qed
    with xe show ?thesis by simp
  qed
  then have pend: "pending fs s \<subseteq> pending fs (s\<lparr>file_queue := q\<rparr>)"
    by (simp add: pending_def subset_iff)
  have st: "stored (s\<lparr>file_queue := q\<rparr>) = stored s"
    by (simp add: stored_def)
  from assms(1) pend st show ?thesis
    unfolding account_inv_def by blast
qed

lemma account_take:
  assumes "account_inv fs s"
    and take: "i < length (mappers s)" "mappers s ! i = Fetch" "file_queue s = f # q"
      "f < length fs" "fs ! f = Some c"
  shows "account_inv fs (s\<lparr>file_queue := q, mappers := (mappers s)[i := Merge f (file_calls c)]\<rparr>)"
proof -
  let ?s' = "s\<lparr>file_queue := q, mappers := (mappers s)[i := Merge f (file_calls c)]\<rparr>"
  have "x \<in> pending_of fs q ((mappers s)[i := Merge f (file_calls c)])"
    if x: "x \<in> pending_of fs (file_queue s) (mappers s)" for x
  proof -
    obtain f' l w where xe: "x = (f', l, w)" by (cases x)
    have "(f', l, w) \<in> pending_of fs q ((mappers s)[i := Merge f (file_calls c)])"
    proof (rule pending_keep)
      show "(f', l, w) \<in> pending_of fs (file_queue s) (mappers s)" using x xe by simp
      show "f' \<in> set q \<or> (\<exists>cs. Merge f (file_calls c) = Merge f' cs \<and> (l, w) \<in> set cs)"
        if "f' \<in> set (file_queue s)" "(f', l, w) \<in> all_calls fs"
      proof (cases "f' = f")
        case True
        with that(2) take(5) have "(l, w) \<in> set (file_calls c)"
          by (auto simp: all_calls_def)
        with True show ?thesis by simp
      next
        case False
        with that(1) take(3) show ?thesis by simp
      qed
    qed (use take in simp_all)
    with xe show ?thesis by simp
  qed
  then have pend: "pending fs s \<subseteq> pending fs ?s'"
    by (simp add: pending_def subset_iff)
  have st: "stored ?s' = stored s"
    by (simp add: stored_def)
  from assms(1) pend st show ?thesis
    unfolding account_inv_def by blast
qed

lemma account_back:
  assumes "account_inv fs s"
    and again: "i < length (mappers s)" "mappers s ! i = Merge f []"
  shows "account_inv fs (s\<lparr>mappers := (mappers s)[i := Fetch]\<rparr>)"
proof -
  have "x \<in> pending_of fs (file_queue s) ((mappers s)[i := Fetch])"
    if "x \<in> pending_of fs (file_queue s) (mappers s)" for x
  proof -
    obtain f' l w where xe: "x = (f', l, w)" by (cases x)
    have "(f', l, w) \<in> pending_of fs (file_queue s) ((mappers s)[i := Fetch])"
    proof (rule pending_keep)
      show "(f', l, w) \<in> pending_of fs (file_queue s) (mappers s)" using that xe by simp
    qed (use again in simp_all)
    with xe show ?thesis by simp
  qed
  then have pend: "pending fs s \<subseteq> pending fs (s\<lparr>mappers := (mappers s)[i := Fetch]\<rparr>)"
    by (simp add: pending_def subset_iff)
  have st: "stored (s\<lparr>mappers := (mappers s)[i := Fetch]\<rparr>) = stored s"
    by (simp add: stored_def)
  from assms(1) pend st show ?thesis
    unfolding account_inv_def by blast
qed

lemma account_add:
  assumes "account_inv fs s" "tables_inv s" "pcs_inv fs s" "shape_inv fs s"
    and add: "i < length (mappers s)" "mappers s ! i = Merge f ((l, w) # cs)"
  shows "account_inv fs (s\<lparr>results := (results s)[l := add_table (results s ! l) w f],
               mappers := (mappers s)[i := Merge f cs]\<rparr>)"
proof -
  let ?s' = "s\<lparr>results := (results s)[l := add_table (results s ! l) w f],
               mappers := (mappers s)[i := Merge f cs]\<rparr>"
  have "(l, w) \<in> set ((l, w) # cs)" by simp
  with add assms(3) have c: "(f, l, w) \<in> all_calls fs"
    unfolding pcs_inv_def by blast
  note lw = all_calls_letter[OF c]
  have len: "length (results s) = NUM_LETTERS" using assms(4) by (simp add: shape_inv_def)
  have st: "stored ?s' = insert (f, l, w) (stored s)"
    using assms(2) len lw by (simp add: stored_add)
  have keep: "x \<in> pending_of fs (file_queue s) ((mappers s)[i := Merge f cs])"
    if x: "x \<in> pending_of fs (file_queue s) (mappers s)" "x \<noteq> (f, l, w)" for x
  proof -
    obtain f' l' w' where xe: "x = (f', l', w')" by (cases x)
    have thread: "\<exists>cs'. Merge f cs = Merge f' cs' \<and> (l', w') \<in> set cs'"
      if t: "mappers s ! i = Merge f' cs0" "(l', w') \<in> set cs0" for cs0
    proof -
      from t(1) add(2) have "f' = f" "cs0 = (l, w) # cs" by simp_all
      with t(2) x(2) xe have "(l', w') \<in> set cs" by auto
      with \<open>f' = f\<close> show ?thesis by simp
    qed
    have "(f', l', w') \<in> pending_of fs (file_queue s) ((mappers s)[i := Merge f cs])"
    proof (rule pending_keep)
      show "(f', l', w') \<in> pending_of fs (file_queue s) (mappers s)" using x xe by simp
      show "f' \<in> set (file_queue s) \<or> (\<exists>cs'. Merge f cs = Merge f' cs' \<and> (l', w') \<in> set cs')"
        if "f' \<in> set (file_queue s)" using that by simp
      show "\<exists>cs'. Merge f cs = Merge f' cs' \<and> (l', w') \<in> set cs'"
        if "mappers s ! i = Merge f' cs0" "(l', w') \<in> set cs0" for cs0
        using that by (rule thread)
      show "i < length (mappers s)" by (rule add(1))
    qed
    with xe show ?thesis by simp
  qed
  have pend: "pending fs s \<subseteq> insert (f, l, w) (pending fs ?s')"
  proof
    fix x assume xp: "x \<in> pending fs s"
    show "x \<in> insert (f, l, w) (pending fs ?s')"
    proof (cases "x = (f, l, w)")
      case True
      then show ?thesis by simp
    next
      case False
      with xp keep[of x] show ?thesis by (simp add: pending_def)
    qed
  qed
  have a: "stored s \<subseteq> all_calls fs" "all_calls fs \<subseteq> stored s \<union> pending fs s"
    using assms(1) by (simp_all add: account_inv_def)
  have "stored ?s' \<subseteq> all_calls fs"
    unfolding st using a(1) c by simp
  moreover have "all_calls fs \<subseteq> stored ?s' \<union> pending fs ?s'"
    unfolding st using a(2) pend by blast
  ultimately show ?thesis
    by (simp add: account_inv_def)
qed

lemma account_inv_step:
  assumes "account_inv fs s" "tables_inv s" "pcs_inv fs s" "shape_inv fs s"
  shows "account_inv fs (step fs s i)"
proof (cases rule: step_kind[where s=s and i=i and fs=fs])
  case stutter
  then show ?thesis using assms by (simp add: step_stutter)
next
  case exit
  then show ?thesis using assms(1) by (simp add: step_exit account_exit)
next
  case (skip f q)
  then show ?thesis using assms(1) account_skip[of fs s f q] by (simp add: step_skip)
next
  case (take f q c)
  then show ?thesis using assms(1) by (simp add: step_take account_take)
next
  case (again f)
  then show ?thesis using assms(1) account_back[of fs s i f] by (simp add: step_back)
next
  case (add f l w cs)
  then show ?thesis using assms by (simp add: step_add account_add)
qed

subsection \<open>Every state of every schedule\<close>

lemma inv_init: "inv fs (init m fs)"
  by (simp add: inv_def shape_inv_init barrier_inv_init pcs_inv_init tables_inv_init account_inv_init)

lemma inv_step: "inv fs s \<Longrightarrow> inv fs (step fs s i)"
  by (simp add: inv_def shape_inv_step barrier_inv_step pcs_inv_step tables_inv_step account_inv_step)

lemma exec_Nil: "exec fs [] s = s"
  by (simp add: exec_def)

lemma exec_Cons: "exec fs (i # sched) s = exec fs sched (step fs s i)"
  by (simp add: exec_def)

lemma exec_append: "exec fs (a @ b) s = exec fs b (exec fs a s)"
  by (simp add: exec_def)

lemma inv_exec: "inv fs s \<Longrightarrow> inv fs (exec fs sched s)"
  by (induction sched arbitrary: s) (simp_all add: exec_Nil exec_Cons inv_step)

lemma inv_reachable: "inv fs (exec fs sched (init m fs))"
  by (rule inv_exec) (rule inv_init)

lemma length_mappers_step: "length (mappers (step fs s i)) = length (mappers s)"
  by (cases rule: step_kind[where s=s and i=i and fs=fs])
     (simp_all add: step_stutter step_exit step_skip step_take step_back step_add)

lemma length_mappers_exec: "length (mappers (exec fs sched s)) = length (mappers s)"
  by (induction sched arbitrary: s) (simp_all add: exec_Nil exec_Cons length_mappers_step)

lemma map_done_queue_empty:
  assumes "inv fs s" "map_done s" "mappers s \<noteq> []"
  shows "file_queue s = []"
proof -
  from assms(2,3) have "0 < length (mappers s) \<and> mappers s ! 0 = AtBarrier"
    by (cases "mappers s") (auto simp: map_done_def)
  with assms(1) show ?thesis by (auto simp: inv_def barrier_inv_def)
qed

lemma map_done_stored:
  assumes "inv fs s" "map_done s" "mappers s \<noteq> []"
  shows "stored s = all_calls fs"
proof -
  have q: "file_queue s = []" using assms by (rule map_done_queue_empty)
  have "\<And>j f cs. j < length (mappers s) \<Longrightarrow> mappers s ! j \<noteq> Merge f cs"
    using assms(2) by (auto simp: map_done_def list_all_length)
  with q have "pending fs s = {}" by (auto simp: pending_def pending_of_def)
  with assms(1) show ?thesis by (auto simp: inv_def account_inv_def)
qed

subsection \<open>The order of the entries\<close>

lemma entry_before_irrefl: "\<not> entry_before a a"
  by (simp add: entry_before_def)

lemma entry_before_trans: "entry_before a b \<Longrightarrow> entry_before b c \<Longrightarrow> entry_before a c"
  by (auto simp: entry_before_def split: if_splits)

lemma entry_before_asym: "entry_before a b \<Longrightarrow> \<not> entry_before b a"
  by (auto simp: entry_before_def split: if_splits)

lemma entry_before_total: "word a \<noteq> word b \<Longrightarrow> entry_before a b \<or> entry_before b a"
  by (auto simp: entry_before_def)

lemma set_insert_entry: "set (insert_entry e xs) = insert e (set xs)"
  by (induction xs) auto

lemma mset_insert_entry: "mset (insert_entry e xs) = add_mset e (mset xs)"
  by (induction xs) auto

lemma sorted_insert_entry:
  "sorted_wrt entry_before xs \<Longrightarrow> \<forall>x \<in> set xs. word x \<noteq> word e \<Longrightarrow>
   sorted_wrt entry_before (insert_entry e xs)"
proof (induction xs)
  case Nil
  then show ?case by simp
next
  case (Cons x xs)
  show ?case
  proof (cases "entry_before x e")
    case True
    with Cons show ?thesis by (auto simp: set_insert_entry)
  next
    case False
    with Cons.prems have ex: "entry_before e x"
      using entry_before_total[of x e] by auto
    then have "\<forall>y \<in> set xs. entry_before e y"
      using Cons.prems(1) by (auto intro: entry_before_trans)
    with ex False Cons.prems(1) show ?thesis by simp
  qed
qed

lemma set_sort_entries: "set (sort_entries es) = set es"
  by (induction es) (simp_all add: sort_entries_def set_insert_entry)

lemma mset_sort_entries: "mset (sort_entries es) = mset es"
  by (induction es) (simp_all add: sort_entries_def mset_insert_entry)

lemma sorted_sort_entries:
  "distinct (map word es) \<Longrightarrow> sorted_wrt entry_before (sort_entries es)"
proof (induction es)
  case Nil
  then show ?case by (simp add: sort_entries_def)
next
  case (Cons e es)
  then have "sorted_wrt entry_before (sort_entries es)" by simp
  moreover have "\<forall>x \<in> set (sort_entries es). word x \<noteq> word e"
    using Cons.prems by (auto simp: set_sort_entries image_iff)
  ultimately have "sorted_wrt entry_before (insert_entry e (sort_entries es))"
    by (rule sorted_insert_entry)
  then show ?case by (simp add: sort_entries_def)
qed

lemma sorted_entries_unique:
  "sorted_wrt entry_before xs \<Longrightarrow> sorted_wrt entry_before ys \<Longrightarrow> set xs = set ys \<Longrightarrow> xs = ys"
proof (induction xs arbitrary: ys)
  case Nil
  then show ?case by simp
next
  case (Cons x xs)
  then obtain y ys' where ys: "ys = y # ys'" by (cases ys) auto
  have xy: "x = y"
  proof (rule ccontr)
    assume ne: "x \<noteq> y"
    with Cons.prems(3) ys have "x \<in> set ys'" "y \<in> set xs" by auto
    with Cons.prems(1,2) ys have "entry_before y x" "entry_before x y" by auto
    then show False using entry_before_asym by blast
  qed
  have "x \<notin> set xs" "y \<notin> set ys'"
    using Cons.prems(1,2) ys entry_before_irrefl by auto
  with Cons.prems(3) ys xy have "set xs = set ys'" by auto
  with Cons.IH[of ys'] Cons.prems(1,2) ys xy show ?case by simp
qed

lemma set_words_array: "set (words_array t) = snd ` set t"
  by (simp add: words_array_def set_sort_entries)

lemma table_ok_words:
  assumes "table_ok t"
  shows "map word (map snd t) = map fst t"
proof -
  have "word (snd p) = fst p" if "p \<in> set t" for p
  proof -
    from that assms have "map_of t (fst p) = Some (snd p)"
      by (simp add: table_ok_def)
    with assms show ?thesis by (auto simp: table_ok_def entry_ok_def)
  qed
  then show ?thesis by simp
qed

lemma sorted_words_array:
  assumes "table_ok t"
  shows "sorted_wrt entry_before (words_array t)"
proof -
  have "distinct (map fst t)" using assms by (simp add: table_ok_def)
  then have "distinct (map word (map snd t))"
    by (simp only: table_ok_words[OF assms])
  then show ?thesis
    unfolding words_array_def by (rule sorted_sort_entries)
qed

lemma distinct_words_array:
  assumes "table_ok t"
  shows "distinct (map word (words_array t))"
proof -
  have "mset (map word (words_array t)) = image_mset word (mset (sort_entries (map snd t)))"
    by (simp only: words_array_def mset_map)
  also have "\<dots> = image_mset word (mset (map snd t))"
    by (simp only: mset_sort_entries)
  also have "\<dots> = mset (map word (map snd t))"
    by (simp only: mset_map)
  also have "\<dots> = mset (map fst t)"
    by (simp only: table_ok_words[OF assms])
  finally have "mset (map word (words_array t)) = mset (map fst t)" .
  then have "distinct (map word (words_array t)) \<longleftrightarrow> distinct (map fst t)"
    by (rule mset_eq_imp_distinct_iff)
  then show ?thesis using assms by (simp add: table_ok_def)
qed

text \<open>The entry of a word in the sorted array is the entry of the table.\<close>

lemma words_array_entry:
  assumes "table_ok t" "e \<in> set (words_array t)"
  shows "map_of t (word e) = Some e \<and> set (file_ids e) = ids_of t (word e) \<and>
         sorted_wrt (<) (file_ids e)"
proof -
  from assms(2) obtain k where k: "(k, e) \<in> set t"
    by (auto simp: set_words_array)
  with assms(1) have m: "map_of t k = Some e" by (simp add: table_ok_def)
  with assms(1) have "entry_ok k e" by (simp add: table_ok_def)
  with m show ?thesis by (simp add: entry_ok_def ids_of_def)
qed

lemma words_array_has:
  assumes "table_ok t"
  shows "(\<exists>e \<in> set (words_array t). word e = w) \<longleftrightarrow> ids_of t w \<noteq> {}"
proof
  assume "\<exists>e \<in> set (words_array t). word e = w"
  then obtain e where e: "e \<in> set (words_array t)" "word e = w" by blast
  from words_array_entry[OF assms e(1)] e(2) have "w \<in> fst ` set t"
    by (metis map_of_eq_None_iff option.distinct(1))
  then show "ids_of t w \<noteq> {}" using ids_of_dom[OF assms] by simp
next
  assume "ids_of t w \<noteq> {}"
  then have "w \<in> fst ` set t" using ids_of_dom[OF assms] by simp
  then obtain e where e: "(w, e) \<in> set t" by auto
  with assms have "map_of t w = Some e" by (simp add: table_ok_def)
  with assms have "word e = w" by (auto simp: table_ok_def entry_ok_def)
  moreover from e have "e \<in> set (words_array t)" by (force simp: set_words_array)
  ultimately show "\<exists>e \<in> set (words_array t). word e = w" by blast
qed

text \<open>Two tables with the same ids for every word give the same array.\<close>

lemma words_array_sub:
  assumes ok: "table_ok a" "table_ok b" and ids: "\<And>w. ids_of a w = ids_of b w"
  shows "set (words_array a) \<subseteq> set (words_array b)"
proof
  fix e assume e: "e \<in> set (words_array a)"
  note ea = words_array_entry[OF ok(1) e]
  have "entry_ok (word e) e" using ea ok(1) unfolding table_ok_def by blast
  then have "file_ids e \<noteq> []" by (simp add: entry_ok_def)
  then have "set (file_ids e) \<noteq> {}" by simp
  then have "ids_of a (word e) \<noteq> {}" using ea by simp
  with ids[of "word e"] have "ids_of b (word e) \<noteq> {}" by simp
  with words_array_has[OF ok(2), of "word e"]
  have "\<exists>e' \<in> set (words_array b). word e' = word e" by blast
  then obtain e' where e': "e' \<in> set (words_array b)" "word e' = word e" by blast
  note eb = words_array_entry[OF ok(2) e'(1)]
  have "set (file_ids e') = ids_of b (word e)" using eb e'(2) by simp
  also have "\<dots> = ids_of a (word e)" using ids[of "word e"] by simp
  also have "\<dots> = set (file_ids e)" using ea by simp
  finally have s: "set (file_ids e') = set (file_ids e)" .
  have "sorted (file_ids e') \<and> distinct (file_ids e')" "sorted (file_ids e) \<and> distinct (file_ids e)"
    using ea eb by (simp_all only: strict_sorted_iff)
  with s have "file_ids e' = file_ids e"
    by (intro sorted_distinct_set_unique) simp_all
  with e'(2) have "e' = e" by simp
  with e'(1) show "e \<in> set (words_array b)" by simp
qed

lemma words_array_cong:
  assumes "table_ok t1" "table_ok t2" "\<And>w. ids_of t1 w = ids_of t2 w"
  shows "words_array t1 = words_array t2"
proof -
  have "set (words_array t1) \<subseteq> set (words_array t2)"
    using assms(1,2) by (rule words_array_sub) (rule assms(3))
  moreover have "set (words_array t2) \<subseteq> set (words_array t1)"
    using assms(2,1) by (rule words_array_sub) (rule assms(3)[symmetric])
  ultimately have "set (words_array t1) = set (words_array t2)" by (rule equalityI)
  with sorted_words_array[OF assms(1)] sorted_words_array[OF assms(2)]
  show ?thesis by (rule sorted_entries_unique)
qed

subsection \<open>The shard ranges of the reducers\<close>

lemma start_index_0: "start_index 0 R = 0"
  by (simp add: start_index_def)

lemma start_index_R: "0 < R \<Longrightarrow> start_index R R = NUM_LETTERS"
  by (simp add: start_index_def)

lemma start_index_mono: "i \<le> j \<Longrightarrow> start_index i R \<le> start_index j R"
  by (simp add: start_index_def div_le_mono)

lemma start_index_le: "0 < R \<Longrightarrow> i \<le> R \<Longrightarrow> start_index i R \<le> NUM_LETTERS"
  using start_index_mono[of i R R] by (simp add: start_index_R)

lemma end_index_eq: "0 < R \<Longrightarrow> i < R \<Longrightarrow> end_index i R = start_index (Suc i) R"
  using start_index_le[of R "Suc i"] by (simp add: end_index_def start_index_def)

lemma ranges_upto:
  "0 < R \<Longrightarrow> k \<le> R \<Longrightarrow> (\<Union>i < k. {start_index i R ..< end_index i R}) = {0 ..< start_index k R}"
proof (induction k)
  case 0
  then show ?case by (simp add: start_index_0)
next
  case (Suc k)
  then have IH: "(\<Union>i < k. {start_index i R ..< end_index i R}) = {0 ..< start_index k R}"
    by simp
  have e: "end_index k R = start_index (Suc k) R"
    using Suc.prems by (simp add: end_index_eq)
  have m: "start_index k R \<le> start_index (Suc k) R"
    by (rule start_index_mono) simp
  have "(\<Union>i < Suc k. {start_index i R ..< end_index i R}) =
        (\<Union>i < k. {start_index i R ..< end_index i R}) \<union> {start_index k R ..< end_index k R}"
    by (simp add: lessThan_Suc Un_commute)
  also have "\<dots> = {0 ..< start_index k R} \<union> {start_index k R ..< start_index (Suc k) R}"
    by (simp only: IH e)
  also have "\<dots> = {0 ..< start_index (Suc k) R}"
    using m by auto
  finally show ?case .
qed

lemma ranges_cover:
  "0 < R \<Longrightarrow> (\<Union>i < R. {start_index i R ..< end_index i R}) = {0 ..< NUM_LETTERS}"
  using ranges_upto[of R R] by (simp add: start_index_R)

lemma ranges_disjoint:
  assumes "0 < R" "i < j" "j < R"
  shows "{start_index i R ..< end_index i R} \<inter> {start_index j R ..< end_index j R} = {}"
proof -
  have "end_index i R = start_index (Suc i) R"
    using assms by (simp add: end_index_eq)
  moreover have "start_index (Suc i) R \<le> start_index j R"
    using assms by (intro start_index_mono) simp
  ultimately show ?thesis by auto
qed

lemma range_owner:
  assumes "0 < R" "l < NUM_LETTERS"
  shows "\<exists>i < R. start_index i R \<le> l \<and> l < end_index i R"
proof -
  from assms(2) have "l \<in> {0 ..< NUM_LETTERS}" by simp
  then have "l \<in> (\<Union>i < R. {start_index i R ..< end_index i R})"
    by (simp only: ranges_cover[OF assms(1)])
  then show ?thesis by auto
qed

subsection \<open>What a reducer writes\<close>

lemma sink_name_inj:
  assumes "l < NUM_LETTERS" "l' < NUM_LETTERS" "sink_name l = sink_name l'"
  shows "l = l'"
proof -
  from assms(3) have "char_of (97 + l) = (char_of (97 + l') :: char)"
    by (simp add: sink_name_def letter_char_def)
  then have "(of_char (char_of (97 + l) :: char) :: nat) = of_char (char_of (97 + l') :: char)"
    by simp
  with assms(1,2) show ?thesis by (simp add: NUM_LETTERS_def)
qed

lemma written_Nil: "written can_create [] = []"
  by (simp add: written_def)

lemma written_Cons:
  "written can_create (l # ls) = (if can_create (sink_name l) then l # written can_create ls else [])"
  by (simp add: written_def)

lemma reducer_loop_other:
  "n \<notin> sink_name ` set (written can_create ls) \<Longrightarrow>
   sinks (reducer_loop can_create rs ls out) n = sinks out n"
proof (induction ls arbitrary: out)
  case Nil
  then show ?case by simp
next
  case (Cons k ls)
  show ?case
  proof (cases "can_create (sink_name k)")
    case True
    with Cons.prems have n: "n \<noteq> sink_name k" "n \<notin> sink_name ` set (written can_create ls)"
      by (auto simp: written_Cons)
    from Cons.IH[OF n(2)] True n(1) show ?thesis by simp
  next
    case False
    then show ?thesis by simp
  qed
qed

lemma reducer_loop_written:
  "l \<in> set (written can_create ls) \<Longrightarrow> \<forall>k \<in> set ls. k < NUM_LETTERS \<Longrightarrow>
   sinks (reducer_loop can_create rs ls out) (sink_name l) = Some (artifact (rs ! l))"
proof (induction ls arbitrary: out)
  case Nil
  then show ?case by (simp add: written_Nil)
next
  case (Cons k ls)
  from Cons.prems(1) have can: "can_create (sink_name k)"
    by (auto simp: written_Cons split: if_splits)
  show ?case
  proof (cases "l \<in> set (written can_create ls)")
    case True
    with Cons.IH Cons.prems(2) can show ?thesis by simp
  next
    case False
    with Cons.prems(1) can have lk: "l = k" by (simp add: written_Cons)
    have "sink_name l \<notin> sink_name ` set (written can_create ls)"
    proof
      assume "sink_name l \<in> sink_name ` set (written can_create ls)"
      then obtain l' where l': "l' \<in> set (written can_create ls)" "sink_name l = sink_name l'"
        by blast
      from l'(1) have "l' \<in> set ls" unfolding written_def by (rule set_takeWhileD[THEN conjunct1])
      with Cons.prems(2) lk l'(2) have "l = l'" by (intro sink_name_inj) simp_all
      with l'(1) False show False by simp
    qed
    from reducer_loop_other[OF this] can lk show ?thesis by simp
  qed
qed

lemma reducer_loop_cerr:
  "cerr (reducer_loop can_create rs ls out) =
   cerr out @ (case dropWhile (\<lambda>l. can_create (sink_name l)) ls of
                 [] \<Rightarrow> []
               | l # _ \<Rightarrow> [''Error creating output file for letter '' @ [letter_char l]])"
  by (induction ls arbitrary: out) simp_all

lemma written_all: "\<forall>l \<in> set ls. can_create (sink_name l) \<Longrightarrow> written can_create ls = ls"
  by (simp add: written_def)

lemma written_upt:
  assumes "a \<le> l" "l < b" "\<not> can_create (sink_name l)"
    "\<forall>k. a \<le> k \<and> k < l \<longrightarrow> can_create (sink_name k)"
  shows "written can_create [a ..< b] = [a ..< l]"
    and "dropWhile (\<lambda>l. can_create (sink_name l)) [a ..< b] = l # [Suc l ..< b]"
proof -
  have split: "[a ..< b] = [a ..< l] @ l # [Suc l ..< b]"
    using assms(1,2) by (metis le_add_diff_inverse less_imp_le_nat upt_add_eq_append upt_conv_Cons)
  have all: "\<And>k. k \<in> set [a ..< l] \<Longrightarrow> can_create (sink_name k)"
    using assms(4) by simp
  have "takeWhile (\<lambda>l. can_create (sink_name l)) ([a ..< l] @ l # [Suc l ..< b]) =
        [a ..< l] @ takeWhile (\<lambda>l. can_create (sink_name l)) (l # [Suc l ..< b])"
    by (rule takeWhile_append2) (rule all)
  then show "written can_create [a ..< b] = [a ..< l]"
    unfolding written_def using assms(3) by (simp only: split[symmetric] takeWhile.simps if_False append_Nil2)
  have "dropWhile (\<lambda>l. can_create (sink_name l)) ([a ..< l] @ l # [Suc l ..< b]) =
        dropWhile (\<lambda>l. can_create (sink_name l)) (l # [Suc l ..< b])"
    by (rule dropWhile_append2) (rule all)
  then show "dropWhile (\<lambda>l. can_create (sink_name l)) [a ..< b] = l # [Suc l ..< b]"
    using assms(3) by (simp only: split[symmetric] dropWhile.simps if_False)
qed

lemma end_index_le: "end_index i R \<le> NUM_LETTERS"
  by (simp add: end_index_def)

lemma reducer_all:
  assumes "\<forall>l < NUM_LETTERS. can_create (sink_name l)"
  shows "sinks (reducer can_create rs i R out) (sink_name l) =
         (if start_index i R \<le> l \<and> l < end_index i R then Some (artifact (rs ! l))
          else if l < NUM_LETTERS then sinks out (sink_name l)
          else sinks (reducer can_create rs i R out) (sink_name l))"
proof -
  let ?ls = "[start_index i R ..< end_index i R]"
  have lt: "\<forall>k \<in> set ?ls. k < NUM_LETTERS"
    using end_index_le[of i R] by auto
  with assms have w: "written can_create ?ls = ?ls"
    by (intro written_all) simp
  show ?thesis
  proof (cases "start_index i R \<le> l \<and> l < end_index i R")
    case True
    then have "l \<in> set (written can_create ?ls)" by (simp add: w)
    from reducer_loop_written[OF this lt] True show ?thesis by (simp add: reducer_def)
  next
    case False
    show ?thesis
    proof (cases "l < NUM_LETTERS")
      case True
      have "sink_name l \<notin> sink_name ` set (written can_create ?ls)"
      proof
        assume "sink_name l \<in> sink_name ` set (written can_create ?ls)"
        then obtain l' where l': "l' \<in> set ?ls" "sink_name l = sink_name l'"
          by (auto simp: w)
        with lt True have "l = l'" by (intro sink_name_inj) simp_all
        with l'(1) False show False by simp
      qed
      from reducer_loop_other[OF this] True False show ?thesis by (auto simp: reducer_def)
    next
      case False
      with \<open>\<not> (start_index i R \<le> l \<and> l < end_index i R)\<close> show ?thesis by auto
    qed
  qed
qed

lemma reduce_phase_snoc:
  "reduce_phase can_create rs R (order @ [i]) out =
   reducer can_create rs i R (reduce_phase can_create rs R order out)"
  by (simp add: reduce_phase_def)

lemma reduce_phase_all:
  assumes "\<forall>l < NUM_LETTERS. can_create (sink_name l)" "l < NUM_LETTERS"
  shows "sinks (reduce_phase can_create rs R order out) (sink_name l) =
         (if \<exists>i \<in> set order. start_index i R \<le> l \<and> l < end_index i R
          then Some (artifact (rs ! l)) else sinks out (sink_name l))"
proof (induction order rule: rev_induct)
  case Nil
  then show ?case by (simp add: reduce_phase_def)
next
  case (snoc i order)
  show ?case
    unfolding reduce_phase_snoc
    by (subst reducer_all[OF assms(1)]) (use assms(2) snoc in auto)
qed

lemma reduce_phase_sinks:
  assumes "\<forall>l < NUM_LETTERS. can_create (sink_name l)" "l < NUM_LETTERS" "0 < R"
    "set order = {0 ..< R}"
  shows "sinks (reduce_phase can_create rs R order out) (sink_name l) = Some (artifact (rs ! l))"
proof -
  from range_owner[OF assms(3,2)] assms(4)
  have "\<exists>i \<in> set order. start_index i R \<le> l \<and> l < end_index i R" by auto
  then show ?thesis by (simp add: reduce_phase_all[OF assms(1,2)])
qed

subsection \<open>The map phase ends\<close>

lemma weight_update:
  assumes "i < length ms"
  shows "sum_list (map pc_weight (ms[i := p])) + pc_weight (ms ! i) =
         sum_list (map pc_weight ms) + pc_weight p"
proof -
  have "sum_list ((map pc_weight ms)[i := pc_weight p]) =
        sum_list (map pc_weight ms) + pc_weight p - (map pc_weight ms) ! i"
    using assms by (intro sum_list_update) simp
  moreover have "(map pc_weight ms) ! i \<le> sum_list (map pc_weight ms)"
    using assms by (intro elem_le_sum_list) simp
  ultimately show ?thesis using assms by (simp add: map_update)
qed

lemma work_step_less:
  assumes "i < length (mappers s)" "mappers s ! i \<noteq> AtBarrier"
  shows "work fs (step fs s i) < work fs s"
proof (cases rule: step_kind[where s=s and i=i and fs=fs])
  case stutter
  with assms show ?thesis by simp
next
  case exit
  with weight_update[OF exit(1), of AtBarrier] show ?thesis
    by (simp add: step_exit work_def)
next
  case (skip f q)
  then show ?thesis
    by (auto simp: step_skip work_def file_weight_def)
next
  case (take f q c)
  with weight_update[OF take(1), of "Merge f (file_calls c)"] show ?thesis
    by (simp add: step_take work_def file_weight_def)
next
  case (again f)
  with weight_update[OF again(1), of Fetch] show ?thesis
    by (simp add: step_back work_def)
next
  case (add f l w cs)
  with weight_update[OF add(1), of "Merge f cs"] show ?thesis
    by (simp add: step_add work_def)
qed

lemma work_step_le: "work fs (step fs s i) \<le> work fs s"
proof (cases "i < length (mappers s) \<and> mappers s ! i \<noteq> AtBarrier")
  case True
  then show ?thesis using work_step_less[of i s fs] by simp
next
  case False
  then have "step fs s i = s" by (intro step_stutter) auto
  then show ?thesis by simp
qed

lemma barrier_stays:
  assumes "j < length (mappers s)" "mappers s ! j = AtBarrier"
  shows "mappers (step fs s i) ! j = AtBarrier"
proof (cases rule: step_kind[where s=s and i=i and fs=fs])
  case stutter
  with assms show ?thesis by (simp add: step_stutter)
next
  case exit
  with assms show ?thesis by (simp add: step_exit nth_list_update)
next
  case (skip f q)
  with assms show ?thesis by (simp add: step_skip)
next
  case (take f q c)
  with assms have "i \<noteq> j" by auto
  with assms take show ?thesis by (simp add: step_take)
next
  case (again f)
  with assms have "i \<noteq> j" by auto
  with assms again show ?thesis by (simp add: step_back)
next
  case (add f l w cs)
  with assms have "i \<noteq> j" by auto
  with assms add show ?thesis by (simp add: step_add)
qed

lemma barrier_stays_exec:
  "j < length (mappers s) \<Longrightarrow> mappers s ! j = AtBarrier \<Longrightarrow> mappers (exec fs sched s) ! j = AtBarrier"
proof (induction sched arbitrary: s)
  case Nil
  then show ?case by (simp add: exec_Nil)
next
  case (Cons i sched)
  from Cons.prems have "mappers (step fs s i) ! j = AtBarrier" by (rule barrier_stays)
  with Cons.IH[of "step fs s i"] Cons.prems(1) show ?case
    by (simp add: exec_Cons length_mappers_step)
qed

lemma work_0_barrier:
  assumes "work fs s = 0" "j < length (mappers s)"
  shows "mappers s ! j = AtBarrier"
proof -
  have "(map pc_weight (mappers s)) ! j \<le> sum_list (map pc_weight (mappers s))"
    using assms(2) by (intro elem_le_sum_list) simp
  then have "pc_weight (mappers s ! j) \<le> sum_list (map pc_weight (mappers s))"
    using assms(2) by simp
  moreover have "sum_list (map pc_weight (mappers s)) = 0"
    using assms(1) unfolding work_def by linarith
  ultimately have "pc_weight (mappers s ! j) = 0" by linarith
  then show ?thesis by (cases "mappers s ! j") simp_all
qed

lemma thread_finishes:
  "j < length (mappers s) \<Longrightarrow> work fs s \<le> count_list sched j \<Longrightarrow>
   mappers (exec fs sched s) ! j = AtBarrier"
proof (induction sched arbitrary: s)
  case Nil
  then have "work fs s = 0" by simp
  with Nil.prems(1) show ?case by (simp add: exec_Nil work_0_barrier)
next
  case (Cons i sched)
  have len: "j < length (mappers (step fs s i))"
    using Cons.prems(1) by (simp add: length_mappers_step)
  show ?case
  proof (cases "mappers s ! j = AtBarrier")
    case True
    with Cons.prems(1) show ?thesis by (rule barrier_stays_exec)
  next
    case False
    have "work fs (step fs s i) \<le> count_list sched j"
    proof (cases "i = j")
      case True
      with False Cons.prems(1) have "work fs (step fs s i) < work fs s"
        by (intro work_step_less) simp_all
      with Cons.prems(2) True show ?thesis by simp
    next
      case False
      with Cons.prems(2) work_step_le[of fs s i] show ?thesis by simp
    qed
    from Cons.IH[OF len this] show ?thesis by (simp add: exec_Cons)
  qed
qed

lemma map_phase_terminates:
  assumes "\<forall>j < m. work fs (init m fs) \<le> count_list sched j"
  shows "map_done (exec fs sched (init m fs))"
proof -
  have len: "length (mappers (exec fs sched (init m fs))) = m"
    by (simp add: length_mappers_exec init_def)
  have "mappers (exec fs sched (init m fs)) ! j = AtBarrier" if "j < m" for j
    using that assms by (intro thread_finishes) (simp_all add: init_def)
  with len show ?thesis by (simp add: map_done_def list_all_length)
qed

lemma count_upt: "count_list [0 ..< m] j = (if j < m then 1 else 0)"
  by (induction m) auto

lemma count_round_robin: "j < m \<Longrightarrow> count_list (round_robin m n) j = n"
proof (induction n)
  case 0
  then show ?case by (simp add: round_robin_def)
next
  case (Suc n)
  have "count_list [0 ..< m] j = 1"
    using Suc.prems by (simp add: count_upt)
  with Suc show ?case by (simp add: round_robin_def)
qed

lemma round_robin_finishes:
  "map_done (exec fs (round_robin m (work fs (init m fs))) (init m fs))"
  by (rule map_phase_terminates) (simp add: count_round_robin)

subsection \<open>add_table on any table\<close>

lemma set_update_sub: "set (AList.update k v al) \<subseteq> insert (k, v) (set al)"
  by (induction al) auto

lemma add_table_set:
  assumes "(k, e) \<in> set (add_table t w f)" "(k, e) \<notin> set t"
  shows "k = w \<and>
     ((map_of t w = None \<and> e = \<lparr>word = w, file_ids = [int f + 1]\<rparr>) \<or>
      (\<exists>e0. (w, e0) \<in> set t \<and>
         (lower_bound (file_ids e0) (int f + 1) = length (file_ids e0) \<or>
          file_ids e0 ! lower_bound (file_ids e0) (int f + 1) \<noteq> int f + 1) \<and>
         e = e0\<lparr>file_ids := vec_insert (lower_bound (file_ids e0) (int f + 1)) (int f + 1) (file_ids e0)\<rparr>))"
proof (cases "map_of t w")
  case None
  with assms set_update_sub[of w "\<lparr>word = w, file_ids = [int f + 1]\<rparr>" t] show ?thesis
    by (auto simp: add_table_def)
next
  case (Some e0)
  then have in_t: "(w, e0) \<in> set t" by (rule map_of_SomeD)
  let ?it = "lower_bound (file_ids e0) (int f + 1)"
  show ?thesis
  proof (cases "?it = length (file_ids e0) \<or> file_ids e0 ! ?it \<noteq> int f + 1")
    case True
    then have "add_table t w f = AList.update w (e0\<lparr>file_ids := vec_insert ?it (int f + 1) (file_ids e0)\<rparr>) t"
      by (simp add: add_table_def Some Let_def)
    with assms set_update_sub[of w "e0\<lparr>file_ids := vec_insert ?it (int f + 1) (file_ids e0)\<rparr>" t]
    have "k = w \<and> e = e0\<lparr>file_ids := vec_insert ?it (int f + 1) (file_ids e0)\<rparr>"
      by auto
    with in_t True show ?thesis by blast
  next
    case False
    then have "add_table t w f = t" by (simp add: add_table_def Some Let_def)
    with assms show ?thesis by simp
  qed
qed

lemma ids_increasing_iff:
  "ids_increasing t \<longleftrightarrow> (\<forall>(k, e) \<in> set t. sorted_wrt (<) (file_ids e))"
  by (auto simp: ids_increasing_def list_all_iff strict_sorted_iff)

lemma ids_increasing_add_table:
  assumes "ids_increasing t"
  shows "ids_increasing (add_table t w f)"
proof -
  have "sorted_wrt (<) (file_ids e)" if "(k, e) \<in> set (add_table t w f)" for k e
  proof (cases "(k, e) \<in> set t")
    case True
    with assms show ?thesis by (auto simp: ids_increasing_iff)
  next
    case False
    from add_table_set[OF that False] consider
        (fresh) "e = \<lparr>word = w, file_ids = [int f + 1]\<rparr>"
      | (grown) e0 where "(w, e0) \<in> set t"
          "lower_bound (file_ids e0) (int f + 1) = length (file_ids e0) \<or>
            file_ids e0 ! lower_bound (file_ids e0) (int f + 1) \<noteq> int f + 1"
          "e = e0\<lparr>file_ids := vec_insert (lower_bound (file_ids e0) (int f + 1)) (int f + 1) (file_ids e0)\<rparr>"
      by blast
    then show ?thesis
    proof cases
      case fresh
      then show ?thesis by simp
    next
      case (grown e0)
      from grown(1) assms have srt: "sorted_wrt (<) (file_ids e0)"
        by (auto simp: ids_increasing_iff)
      from grown(2) lower_bound_absent[OF srt, of "int f + 1"]
      have "int f + 1 \<notin> set (file_ids e0)" by blast
      from sorted_vec_insert[OF srt this] grown(3) show ?thesis by simp
    qed
  qed
  then show ?thesis by (auto simp: ids_increasing_iff)
qed

lemma ids_increasing_add_all: "ids_increasing t \<Longrightarrow> ids_increasing (add_all t ops)"
proof (induction ops arbitrary: t)
  case Nil
  then show ?case by (simp add: add_all_def)
next
  case (Cons p ops)
  obtain w f where p: "p = (w, f)" by (cases p)
  have "add_all t (p # ops) = add_all (add_table t w f) ops"
    by (simp add: add_all_def p)
  with Cons.IH[OF ids_increasing_add_table[OF Cons.prems, of w f]] show ?case by simp
qed

lemma table_ok_ids_increasing:
  assumes "table_ok t"
  shows "ids_increasing t"
proof -
  have "sorted_wrt (<) (file_ids e)" if "(k, e) \<in> set t" for k e
  proof -
    from that assms have "map_of t k = Some e" by (simp add: table_ok_def)
    with assms show ?thesis by (auto simp: table_ok_def entry_ok_def)
  qed
  then show ?thesis by (auto simp: ids_increasing_iff)
qed

lemma reachable_table_ok:
  "l < NUM_LETTERS \<Longrightarrow> table_ok (results (exec fs sched (init m fs)) ! l)"
  using inv_reachable[of fs sched m] by (simp add: inv_def tables_inv_def)

lemma letter_index_hd:
  assumes "l < NUM_LETTERS"
  shows "letter_index k = int l \<longleftrightarrow> k \<noteq> [] \<and> hd k = letter_char l"
proof (cases k)
  case Nil
  then show ?thesis by (simp add: letter_index_def)
next
  case (Cons c cs)
  have "int (of_char c) - 97 = int l \<longleftrightarrow> (of_char c :: nat) = 97 + l" by auto
  also have "\<dots> \<longleftrightarrow> c = char_of (97 + l)"
  proof
    assume "(of_char c :: nat) = 97 + l"
    then have "char_of (of_char c :: nat) = (char_of (97 + l) :: char)" by simp
    then show "c = char_of (97 + l)" by simp
  next
    assume "c = char_of (97 + l)"
    then show "(of_char c :: nat) = 97 + l" using assms by (simp add: NUM_LETTERS_def)
  qed
  finally show ?thesis by (simp add: Cons letter_index_def letter_char_def)
qed

lemma key_consistent_add_table:
  assumes "key_consistent l t" "w \<noteq> []" "hd w = letter_char l"
  shows "key_consistent l (add_table t w f)"
proof -
  have old: "word e = k \<and> k \<noteq> [] \<and> hd k = letter_char l" if "(k, e) \<in> set t" for k e
    using assms(1) that by (auto simp: key_consistent_def list_all_iff)
  have "word e = k \<and> k \<noteq> [] \<and> hd k = letter_char l" if "(k, e) \<in> set (add_table t w f)" for k e
  proof (cases "(k, e) \<in> set t")
    case True
    then show ?thesis by (rule old)
  next
    case False
    from add_table_set[OF that False] assms(2,3) old[of w] show ?thesis by auto
  qed
  then show ?thesis by (auto simp: key_consistent_def list_all_iff)
qed

lemma reachable_key_consistent:
  assumes "l < NUM_LETTERS"
  shows "key_consistent l (results (exec fs sched (init m fs)) ! l)"
proof -
  let ?t = "results (exec fs sched (init m fs)) ! l"
  have ok: "table_ok ?t" using assms by (rule reachable_table_ok)
  have li: "\<forall>k \<in> fst ` set ?t. letter_index k = int l"
    using inv_reachable[of fs sched m] assms by (simp add: inv_def tables_inv_def)
  have "word e = k \<and> k \<noteq> [] \<and> hd k = letter_char l" if "(k, e) \<in> set ?t" for k e
  proof -
    from that ok have "map_of ?t k = Some e" by (simp add: table_ok_def)
    with ok have "word e = k" by (auto simp: table_ok_def entry_ok_def)
    moreover from that li have "letter_index k = int l" by force
    ultimately show ?thesis using letter_index_hd[OF assms, of k] by simp
  qed
  then show ?thesis by (auto simp: key_consistent_def list_all_iff)
qed

subsection \<open>The tables at the end of the map phase\<close>

lemma final_ids:
  assumes "0 < m" "map_done (exec fs sched (init m fs))" "l < NUM_LETTERS"
  shows "ids_of (results (exec fs sched (init m fs)) ! l) w =
         (if l = nat (letter_index w) then expected_ids fs w else {})"
proof -
  let ?s = "exec fs sched (init m fs)"
  have inv: "inv fs ?s" by (rule inv_reachable)
  have ne: "mappers ?s \<noteq> []"
    using assms(1) length_mappers_exec[of fs sched "init m fs"] by (auto simp: init_def)
  have st: "stored ?s = all_calls fs" using inv assms(2) ne by (rule map_done_stored)
  have pos: "\<forall>x \<in> ids_of (results ?s ! l) w. 1 \<le> x"
    using inv assms(3) unfolding inv_def tables_inv_def by blast
  have mem: "int f + 1 \<in> ids_of (results ?s ! l) w \<longleftrightarrow> (f, l, w) \<in> all_calls fs" for f
  proof -
    have "(f, l, w) \<in> stored ?s \<longleftrightarrow> int f + 1 \<in> ids_of (results ?s ! l) w"
      using assms(3) by (simp add: stored_def)
    then show ?thesis by (simp only: st)
  qed
  have calls: "(f, l, w) \<in> all_calls fs \<longleftrightarrow>
      l = nat (letter_index w) \<and> f < length fs \<and> (\<exists>c. fs ! f = Some c \<and> w \<in> set (file_words c))" for f
    by (auto simp: all_calls_def file_calls_set)
  show ?thesis
  proof (rule set_eqI)
    fix x
    show "x \<in> ids_of (results ?s ! l) w \<longleftrightarrow>
          x \<in> (if l = nat (letter_index w) then expected_ids fs w else {})"
    proof (cases "1 \<le> x")
      case True
      then have x: "x = int (nat (x - 1)) + 1" by simp
      have "x \<in> ids_of (results ?s ! l) w \<longleftrightarrow> (nat (x - 1), l, w) \<in> all_calls fs"
        using mem[of "nat (x - 1)"] x by simp
      also have "\<dots> \<longleftrightarrow> l = nat (letter_index w) \<and> x \<in> expected_ids fs w"
      proof
        assume "(nat (x - 1), l, w) \<in> all_calls fs"
        with calls[of "nat (x - 1)"] x show "l = nat (letter_index w) \<and> x \<in> expected_ids fs w"
          unfolding expected_ids_def by blast
      next
        assume a: "l = nat (letter_index w) \<and> x \<in> expected_ids fs w"
        then obtain f where f: "x = int f + 1" "f < length fs"
            "\<exists>c. fs ! f = Some c \<and> w \<in> set (file_words c)"
          unfolding expected_ids_def by blast
        from f(1) have "nat (x - 1) = f" by simp
        with a f calls[of f] show "(nat (x - 1), l, w) \<in> all_calls fs" by simp
      qed
      finally show ?thesis by simp
    next
      case False
      with pos have "x \<notin> ids_of (results ?s ! l) w" by auto
      moreover from False have "x \<notin> expected_ids fs w"
        by (auto simp: expected_ids_def)
      ultimately show ?thesis by simp
    qed
  qed
qed

lemma emitted_has:
  assumes "0 < m" "map_done (exec fs sched (init m fs))" "l < NUM_LETTERS"
  shows "w \<in> set (map word (emitted fs m sched l)) \<longleftrightarrow>
         l = nat (letter_index w) \<and> expected_ids fs w \<noteq> {}"
proof -
  have "w \<in> set (map word (emitted fs m sched l)) \<longleftrightarrow>
        (\<exists>e \<in> set (words_array (results (exec fs sched (init m fs)) ! l)). word e = w)"
    by (auto simp: emitted_def)
  also have "\<dots> \<longleftrightarrow> ids_of (results (exec fs sched (init m fs)) ! l) w \<noteq> {}"
    by (rule words_array_has) (rule reachable_table_ok[OF assms(3)])
  also have "\<dots> \<longleftrightarrow> l = nat (letter_index w) \<and> expected_ids fs w \<noteq> {}"
    by (simp add: final_ids[OF assms])
  finally show ?thesis .
qed

lemma emitted_ids:
  assumes "0 < m" "map_done (exec fs sched (init m fs))" "l < NUM_LETTERS"
    "e \<in> set (emitted fs m sched l)"
  shows "set (file_ids e) = expected_ids fs (word e) \<and> sorted_wrt (<) (file_ids e) \<and>
         l = nat (letter_index (word e))"
proof -
  have e: "e \<in> set (words_array (results (exec fs sched (init m fs)) ! l))"
    using assms(4) by (simp add: emitted_def)
  note en = words_array_entry[OF reachable_table_ok[OF assms(3)] e]
  have "word e \<in> set (map word (emitted fs m sched l))" using assms(4) by simp
  then have l: "l = nat (letter_index (word e))"
    by (simp only: emitted_has[OF assms(1-3)])
  have "ids_of (results (exec fs sched (init m fs)) ! l) (word e) = expected_ids fs (word e)"
    using final_ids[OF assms(1-3), of "word e"] l by simp
  with en l show ?thesis by simp
qed

lemma file_words_shard:
  assumes "w \<in> set (file_words content)"
  shows "w \<noteq> []" "nat (letter_index w) < NUM_LETTERS" "letter_index w = int (nat (letter_index w))"
  using file_words_letter[OF assms] by (auto simp: NUM_LETTERS_def)

lemma expected_ids_in:
  "f < length fs \<Longrightarrow> fs ! f = Some c \<Longrightarrow> w \<in> set (file_words c) \<Longrightarrow> int f + 1 \<in> expected_ids fs w"
  unfolding expected_ids_def by blast

lemma emitted_same:
  assumes "0 < m1" "map_done (exec fs sched1 (init m1 fs))"
    "0 < m2" "map_done (exec fs sched2 (init m2 fs))" "l < NUM_LETTERS"
  shows "emitted fs m1 sched1 l = emitted fs m2 sched2 l"
  unfolding emitted_def
proof (rule words_array_cong)
  show "table_ok (results (exec fs sched1 (init m1 fs)) ! l)"
    by (rule reachable_table_ok[OF assms(5)])
  show "table_ok (results (exec fs sched2 (init m2 fs)) ! l)"
    by (rule reachable_table_ok[OF assms(5)])
  show "ids_of (results (exec fs sched1 (init m1 fs)) ! l) w =
        ids_of (results (exec fs sched2 (init m2 fs)) ! l) w" for w
    by (simp only: final_ids[OF assms(1,2,5)] final_ids[OF assms(3,4,5)])
qed

lemma filter_unique:
  "distinct (map g xs) \<Longrightarrow> x \<in> set xs \<Longrightarrow> filter (\<lambda>y. g y = g x) xs = [x]"
proof (induction xs)
  case Nil
  then show ?case by simp
next
  case (Cons a xs)
  show ?case
  proof (cases "x = a")
    case True
    have "\<forall>y \<in> set xs. g y \<noteq> g a"
      using Cons.prems(1) by (auto simp: image_iff)
    then have "filter (\<lambda>y. g y = g a) xs = []"
      by (simp add: filter_empty_conv)
    with True show ?thesis by simp
  next
    case False
    with Cons.prems have "x \<in> set xs" by simp
    with Cons.prems(1) have "g a \<noteq> g x" by (auto simp: image_iff)
    with Cons.IH \<open>x \<in> set xs\<close> Cons.prems(1) show ?thesis by simp
  qed
qed

lemma pipeline_Some:
  assumes "pipeline fs m sched can_create R order = Some out"
  shows "map_done (exec fs sched (init m fs))"
    and "out = reduce_phase can_create (results (exec fs sched (init m fs))) R order empty_outputs"
  using assms by (simp_all add: pipeline_def Let_def split: if_splits)

lemma pipeline_sinks:
  assumes "pipeline fs m sched can_create R order = Some out"
    "0 < R" "set order = {0 ..< R}" "\<forall>l < NUM_LETTERS. can_create (sink_name l)" "l < NUM_LETTERS"
  shows "sinks out (sink_name l) = Some (concat (map format_entry (emitted fs m sched l)))"
  unfolding pipeline_Some(2)[OF assms(1)]
  by (simp add: reduce_phase_sinks[OF assms(4,5,2,3)] artifact_def emitted_def)

subsection \<open>The queue\<close>

lemma dequeue_step:
  "file_queue s = (case dequeued s i of None \<Rightarrow> [] | Some f \<Rightarrow> [f]) @ file_queue (step fs s i)"
proof (cases rule: step_kind[where s=s and i=i and fs=fs])
  case stutter
  then have "dequeued s i = None" by (auto simp: dequeued_def)
  with stutter show ?thesis by (simp add: step_stutter)
next
  case exit
  then show ?thesis by (simp add: step_exit dequeued_def)
next
  case (skip f q)
  then show ?thesis by (simp add: step_skip[OF skip] dequeued_def)
next
  case (take f q c)
  then show ?thesis by (simp add: step_take dequeued_def)
next
  case (again f)
  then show ?thesis by (simp add: step_back dequeued_def)
next
  case (add f l w cs)
  then show ?thesis by (simp add: step_add dequeued_def)
qed

lemma dequeues_queue:
  "map snd (dequeues fs s sched) @ file_queue (exec fs sched s) = file_queue s"
proof (induction sched arbitrary: s)
  case Nil
  then show ?case by (simp add: exec_Nil)
next
  case (Cons i sched)
  from Cons.IH[of "step fs s i"] dequeue_step[of s i fs] show ?case
    by (cases "dequeued s i") (simp_all add: exec_Cons)
qed

lemma dequeues_init:
  "map snd (dequeues fs (init m fs) sched) @ file_queue (exec fs sched (init m fs)) = [0 ..< length fs]"
  using dequeues_queue[of fs "init m fs" sched] by (simp add: init_def)

lemma lock_count:
  "distinct (map snd cs) \<Longrightarrow>
   count_list (merge_locks cs) (Lock l) = card {w. (l, w) \<in> set cs}"
proof (induction cs)
  case Nil
  then show ?case by (simp add: merge_locks_def)
next
  case (Cons c cs)
  obtain l' w' where c: "c = (l', w')" by (cases c)
  have fin: "finite {w. (l, w) \<in> set cs}"
  proof (rule finite_subset)
    show "{w. (l, w) \<in> set cs} \<subseteq> snd ` set cs" by force
  qed simp
  have step: "count_list (merge_locks (c # cs)) (Lock l) =
        (if l' = l then 1 else 0) + count_list (merge_locks cs) (Lock l)"
    by (simp add: merge_locks_def add_table_locks_def c)
  have IH: "count_list (merge_locks cs) (Lock l) = card {w. (l, w) \<in> set cs}"
    using Cons by simp
  show ?case
  proof (cases "l' = l")
    case True
    have new: "w' \<notin> {w. (l, w) \<in> set cs}"
      using Cons.prems by (force simp: c)
    have "{w. (l, w) \<in> set (c # cs)} = insert w' {w. (l, w) \<in> set cs}"
      using True by (auto simp: c)
    with fin new have "card {w. (l, w) \<in> set (c # cs)} = Suc (card {w. (l, w) \<in> set cs})"
      by simp
    with step IH True show ?thesis by simp
  next
    case False
    then have "{w. (l, w) \<in> set (c # cs)} = {w. (l, w) \<in> set cs}"
      by (auto simp: c)
    with step IH False show ?thesis by simp
  qed
qed

subsection \<open>More on the reducers\<close>

lemma written_subset: "set (written can_create ls) \<subseteq> set ls"
  unfolding written_def by (auto dest: set_takeWhileD)

lemma reducer_other:
  assumes "n \<notin> sink_name ` {0 ..< NUM_LETTERS}"
  shows "sinks (reducer can_create rs i R out) n = sinks out n"
proof -
  have "set (written can_create [start_index i R ..< end_index i R]) \<subseteq> {0 ..< NUM_LETTERS}"
    using written_subset[of can_create "[start_index i R ..< end_index i R]"] end_index_le[of i R]
    by auto
  with assms have "n \<notin> sink_name ` set (written can_create [start_index i R ..< end_index i R])"
    by blast
  then show ?thesis unfolding reducer_def by (rule reducer_loop_other)
qed

lemma reduce_phase_other:
  assumes "n \<notin> sink_name ` {0 ..< NUM_LETTERS}"
  shows "sinks (reduce_phase can_create rs R order out) n = sinks out n"
proof (induction order rule: rev_induct)
  case Nil
  then show ?case by (simp add: reduce_phase_def)
next
  case (snoc i order)
  then show ?case by (simp add: reduce_phase_snoc reducer_other[OF assms])
qed

lemma count_list_distinct: "distinct xs \<Longrightarrow> x \<in> set xs \<Longrightarrow> count_list xs x = 1"
  by (induction xs) (auto simp: count_list_0_iff)

lemma add_table_noop:
  assumes "ids_increasing t" "map_of t w = Some e" "int f + 1 \<in> set (file_ids e)"
  shows "add_table t w f = t"
proof -
  from assms(2) have "(w, e) \<in> set t" by (rule map_of_SomeD)
  with assms(1) have srt: "sorted_wrt (<) (file_ids e)" by (auto simp: ids_increasing_iff)
  from lower_bound_absent[OF srt, of "int f + 1"] assms(3)
  have "\<not> (lower_bound (file_ids e) (int f + 1) = length (file_ids e) \<or>
           file_ids e ! lower_bound (file_ids e) (int f + 1) \<noteq> int f + 1)"
    by blast
  then show ?thesis by (simp add: add_table_def assms(2) Let_def)
qed

lemma reducer_failure:
  assumes "start_index i R \<le> l" "l < end_index i R" "\<not> can_create (sink_name l)"
    "\<forall>k. start_index i R \<le> k \<and> k < l \<longrightarrow> can_create (sink_name k)"
  shows "cerr (reducer can_create rs i R out) =
           cerr out @ [''Error creating output file for letter '' @ [letter_char l]]"
    and "start_index i R \<le> k \<Longrightarrow> k < l \<Longrightarrow>
           sinks (reducer can_create rs i R out) (sink_name k) = Some (artifact (rs ! k))"
    and "k < NUM_LETTERS \<Longrightarrow> \<not> (start_index i R \<le> k \<and> k < l) \<Longrightarrow>
           sinks (reducer can_create rs i R out) (sink_name k) = sinks out (sink_name k)"
proof -
  let ?ls = "[start_index i R ..< end_index i R]"
  note w = written_upt[OF assms]
  have lt: "\<forall>k \<in> set ?ls. k < NUM_LETTERS"
    using end_index_le[of i R] by auto
  show "cerr (reducer can_create rs i R out) =
           cerr out @ [''Error creating output file for letter '' @ [letter_char l]]"
    unfolding reducer_def reducer_loop_cerr w(2) by simp
  show "sinks (reducer can_create rs i R out) (sink_name k) = Some (artifact (rs ! k))"
    if "start_index i R \<le> k" "k < l"
  proof -
    from that have "k \<in> set (written can_create ?ls)" by (simp add: w(1))
    from reducer_loop_written[OF this lt] show ?thesis by (simp add: reducer_def)
  qed
  show "sinks (reducer can_create rs i R out) (sink_name k) = sinks out (sink_name k)"
    if k: "k < NUM_LETTERS" "\<not> (start_index i R \<le> k \<and> k < l)"
  proof -
    have "sink_name k \<notin> sink_name ` set (written can_create ?ls)"
    proof
      assume "sink_name k \<in> sink_name ` set (written can_create ?ls)"
      then obtain k' where k': "start_index i R \<le> k'" "k' < l" "sink_name k = sink_name k'"
        by (auto simp: w(1))
      from k'(2) assms(2) end_index_le[of i R] have "k' < NUM_LETTERS" by simp
      with k(1) k'(3) have "k = k'" by (intro sink_name_inj)
      with k' k(2) show False by simp
    qed
    then show ?thesis unfolding reducer_def by (rule reducer_loop_other)
  qed
qed

subsection \<open>The artifacts when sinks may fail\<close>

lemma written_upt_iff:
  "l \<in> set (written can_create [a ..< b]) \<longleftrightarrow>
   a \<le> l \<and> l < b \<and> (\<forall>k. a \<le> k \<and> k \<le> l \<longrightarrow> can_create (sink_name k))"
proof (induction "b - a" arbitrary: a)
  case 0
  then show ?case by (simp add: written_Nil)
next
  case (Suc n)
  then have ab: "a < b" and n: "n = b - Suc a" by simp_all
  have up: "[a ..< b] = a # [Suc a ..< b]" using ab by (simp add: upt_conv_Cons)
  note IH = Suc.hyps(1)[OF n]
  show ?case
  proof (cases "can_create (sink_name a)")
    case False
    then have "written can_create [a ..< b] = []" by (simp add: up written_Cons)
    moreover have "\<not> (a \<le> l \<and> l < b \<and> (\<forall>k. a \<le> k \<and> k \<le> l \<longrightarrow> can_create (sink_name k)))"
      using False by auto
    ultimately show ?thesis by simp
  next
    case True
    then have w: "written can_create [a ..< b] = a # written can_create [Suc a ..< b]"
      by (simp add: up written_Cons)
    show ?thesis
    proof (cases "l = a")
      case la: True
      have "\<forall>k. a \<le> k \<and> k \<le> a \<longrightarrow> can_create (sink_name k)"
        using True by (auto simp: le_antisym)
      with la ab show ?thesis by (simp add: w)
    next
      case la: False
      have "(\<forall>k. a \<le> k \<and> k \<le> l \<longrightarrow> can_create (sink_name k)) \<longleftrightarrow>
            (\<forall>k. Suc a \<le> k \<and> k \<le> l \<longrightarrow> can_create (sink_name k))"
      proof
        assume "\<forall>k. a \<le> k \<and> k \<le> l \<longrightarrow> can_create (sink_name k)"
        then show "\<forall>k. Suc a \<le> k \<and> k \<le> l \<longrightarrow> can_create (sink_name k)" by auto
      next
        assume r: "\<forall>k. Suc a \<le> k \<and> k \<le> l \<longrightarrow> can_create (sink_name k)"
        show "\<forall>k. a \<le> k \<and> k \<le> l \<longrightarrow> can_create (sink_name k)"
        proof (intro allI impI)
          fix k assume k: "a \<le> k \<and> k \<le> l"
          show "can_create (sink_name k)"
          proof (cases "k = a")
            case True
            with \<open>can_create (sink_name a)\<close> show ?thesis by simp
          next
            case False
            with k have "Suc a \<le> k \<and> k \<le> l" by simp
            with r show ?thesis by blast
          qed
        qed
      qed
      moreover have "a \<le> l \<longleftrightarrow> Suc a \<le> l" using la by auto
      moreover have "l \<in> set (written can_create [a ..< b]) \<longleftrightarrow>
          l \<in> set (written can_create [Suc a ..< b])"
        using la by (simp add: w)
      ultimately show ?thesis using IH by blast
    qed
  qed
qed

lemma reducer_sinks:
  assumes "l < NUM_LETTERS"
  shows "sinks (reducer can_create rs i R out) (sink_name l) =
         (if l \<in> set (written can_create [start_index i R ..< end_index i R])
          then Some (artifact (rs ! l)) else sinks out (sink_name l))"
proof -
  let ?ls = "[start_index i R ..< end_index i R]"
  have lt: "\<forall>k \<in> set ?ls. k < NUM_LETTERS"
    using end_index_le[of i R] by auto
  show ?thesis
  proof (cases "l \<in> set (written can_create ?ls)")
    case True
    from reducer_loop_written[OF True lt] True show ?thesis by (simp add: reducer_def)
  next
    case False
    have "sink_name l \<notin> sink_name ` set (written can_create ?ls)"
    proof
      assume "sink_name l \<in> sink_name ` set (written can_create ?ls)"
      then obtain l' where l': "l' \<in> set (written can_create ?ls)" "sink_name l = sink_name l'"
        by blast
      from l'(1) written_subset[of can_create ?ls] lt have "l' < NUM_LETTERS" by blast
      with assms l'(2) have "l = l'" by (intro sink_name_inj)
      with l'(1) False show False by simp
    qed
    from reducer_loop_other[OF this] False show ?thesis by (simp add: reducer_def)
  qed
qed

lemma reduce_phase_written:
  assumes "l < NUM_LETTERS"
  shows "sinks (reduce_phase can_create rs R order out) (sink_name l) =
         (if \<exists>i \<in> set order. l \<in> set (written can_create [start_index i R ..< end_index i R])
          then Some (artifact (rs ! l)) else sinks out (sink_name l))"
proof (induction order rule: rev_induct)
  case Nil
  then show ?case by (simp add: reduce_phase_def)
next
  case (snoc i order)
  show ?case
    unfolding reduce_phase_snoc reducer_sinks[OF assms] using snoc by auto
qed

lemma shard_written_iff:
  "shard_written can_create R l \<longleftrightarrow>
   (\<exists>i \<in> {0 ..< R}. l \<in> set (written can_create [start_index i R ..< end_index i R]))"
proof -
  have "list_all (\<lambda>k. can_create (sink_name k)) [a ..< Suc l] \<longleftrightarrow>
        (\<forall>k. a \<le> k \<and> k \<le> l \<longrightarrow> can_create (sink_name k))" for a
    by (auto simp: list_all_iff)
  then show ?thesis
    unfolding shard_written_def list_ex_iff written_upt_iff by auto
qed

lemma shard_written_all:
  assumes "\<forall>l < NUM_LETTERS. can_create (sink_name l)" "0 < R" "l < NUM_LETTERS"
  shows "shard_written can_create R l"
proof -
  from range_owner[OF assms(2,3)] obtain i where
    i: "i < R" "start_index i R \<le> l" "l < end_index i R" by blast
  have "\<forall>k. start_index i R \<le> k \<and> k \<le> l \<longrightarrow> can_create (sink_name k)"
    using assms(1,3) by auto
  with i have "l \<in> set (written can_create [start_index i R ..< end_index i R])"
    by (simp add: written_upt_iff)
  with i(1) show ?thesis unfolding shard_written_iff by auto
qed

lemma pipeline_sinks_written:
  assumes "pipeline fs m sched can_create R order = Some out"
    "set order = {0 ..< R}" "l < NUM_LETTERS"
  shows "sinks out (sink_name l) =
         (if shard_written can_create R l
          then Some (concat (map format_entry (emitted fs m sched l))) else None)"
  unfolding pipeline_Some(2)[OF assms(1)] reduce_phase_written[OF assms(3)] shard_written_iff assms(2)
  by (simp add: artifact_def emitted_def empty_outputs_def)

lemma fair_pipeline:
  assumes "\<forall>j < m. work fs (init m fs) \<le> count_list sched j"
  shows "pipeline fs m sched can_create R order =
         Some (reduce_phase can_create (results (exec fs sched (init m fs))) R order empty_outputs)"
  using map_phase_terminates[OF assms] by (simp add: pipeline_def Let_def)

section \<open>The claims\<close>

text \<open>
  C1, as the specification states it: when a reducer cannot create the output sink of one of
  its shards, it logs the error, gives up that shard only and goes on with its other shards.
  The code returns from the reducer instead (\<^verbatim>\<open>delete args; return nullptr;\<close>): with one
  reducer and \<^verbatim>\<open>a.txt\<close> the only sink that cannot be created, shard 1 is in the reducer's
  range and \<^verbatim>\<open>b.txt\<close> could be created, yet it is not written.
\<close>

theorem reducer_continues_counterexample:
  "start_index 0 1 \<le> 1 \<and> 1 < end_index 0 1
   \<and> \<not> fails_on ''a.txt'' (sink_name 0) \<and> fails_on ''a.txt'' (sink_name 1)
   \<and> sinks (reducer (fails_on ''a.txt'') (results (init 1 [])) 0 1 empty_outputs) (sink_name 1) = None"
  by code_simp

text \<open>
  C1, amended: when a reducer cannot create the output sink of a shard \<open>l\<close> of its range (the
  first such shard), it writes one line to the error stream and returns. The shards of its
  range before \<open>l\<close> have their artifacts; \<open>l\<close> and the later shards of its range get none,
  and no file of another shard is touched.
\<close>

theorem reducer_stops_at_failed_sink:
  assumes "start_index i R \<le> l" "l < end_index i R" "\<not> can_create (sink_name l)"
    "\<forall>k. start_index i R \<le> k \<and> k < l \<longrightarrow> can_create (sink_name k)"
  shows "cerr (reducer can_create rs i R out) =
           cerr out @ [''Error creating output file for letter '' @ [letter_char l]]
       \<and> (\<forall>k. start_index i R \<le> k \<and> k < l \<longrightarrow>
             sinks (reducer can_create rs i R out) (sink_name k) = Some (artifact (rs ! k)))
       \<and> (\<forall>k. k < NUM_LETTERS \<and> \<not> (start_index i R \<le> k \<and> k < l) \<longrightarrow>
             sinks (reducer can_create rs i R out) (sink_name k) = sinks out (sink_name k))"
  using reducer_failure[OF assms] by blast

theorem reducer_stops_at_failed_sink_witness:
  "start_index 0 1 \<le> 3 \<and> 3 < end_index 0 1 \<and> \<not> fails_on ''d.txt'' (sink_name 3)
   \<and> fails_on ''d.txt'' (sink_name 0) \<and> fails_on ''d.txt'' (sink_name 1)
   \<and> fails_on ''d.txt'' (sink_name 2)
   \<and> cerr (reducer (fails_on ''d.txt'')
         (results (exec example_files example_sched (init 2 example_files))) 0 1 empty_outputs)
       = [''Error creating output file for letter d'']
   \<and> sinks (reducer (fails_on ''d.txt'')
         (results (exec example_files example_sched (init 2 example_files))) 0 1 empty_outputs)
         ''c.txt'' = Some ''cat:[1 2]\<newline>''
   \<and> sinks (reducer (fails_on ''d.txt'')
         (results (exec example_files example_sched (init 2 example_files))) 0 1 empty_outputs)
         ''d.txt'' = None
   \<and> sinks (reducer (fails_on ''d.txt'')
         (results (exec example_files example_sched (init 2 example_files))) 0 1 empty_outputs)
         ''e.txt'' = None"
proof -
  let ?rs = "results (exec example_files example_sched (init 2 example_files))"
  have n0: "sink_name 0 = ''a.txt''" by code_simp
  have n1: "sink_name 1 = ''b.txt''" by code_simp
  have n2: "sink_name 2 = ''c.txt''" by code_simp
  have n3: "sink_name 3 = ''d.txt''" by code_simp
  have n4: "sink_name 4 = ''e.txt''" by code_simp
  have ld: "letter_char 3 = CHR ''d''" by code_simp
  note names = n0 n1 n2 n3 n4
  have h1: "start_index 0 1 \<le> 3" by (simp add: start_index_def)
  have h2: "3 < end_index 0 1" by (simp add: end_index_def NUM_LETTERS_def)
  have h3: "\<not> fails_on ''d.txt'' (sink_name 3)" by code_simp
  have f0: "fails_on ''d.txt'' (sink_name 0)" by code_simp
  have f1: "fails_on ''d.txt'' (sink_name 1)" by code_simp
  have f2: "fails_on ''d.txt'' (sink_name 2)" by code_simp
  have h4: "\<forall>k. start_index 0 1 \<le> k \<and> k < 3 \<longrightarrow> fails_on ''d.txt'' (sink_name k)"
  proof (intro allI impI)
    fix k :: nat assume "start_index 0 1 \<le> k \<and> k < 3"
    then have "k = 0 \<or> k = 1 \<or> k = 2" by auto
    with f0 f1 f2 show "fails_on ''d.txt'' (sink_name k)" by blast
  qed
  have art: "artifact (?rs ! 2) = ''cat:[1 2]\<newline>''" by code_simp
  note t = reducer_stops_at_failed_sink[OF h1 h2 h3 h4, of ?rs empty_outputs]
  from t have c: "cerr (reducer (fails_on ''d.txt'') ?rs 0 1 empty_outputs) =
      [''Error creating output file for letter d'']"
    by (simp add: empty_outputs_def ld)
  from t have "sinks (reducer (fails_on ''d.txt'') ?rs 0 1 empty_outputs) (sink_name 2) =
      Some (artifact (?rs ! 2))"
    by (simp add: start_index_def)
  then have s2: "sinks (reducer (fails_on ''d.txt'') ?rs 0 1 empty_outputs) ''c.txt'' =
      Some ''cat:[1 2]\<newline>''"
    by (simp only: names art)
  from t have "sinks (reducer (fails_on ''d.txt'') ?rs 0 1 empty_outputs) (sink_name 3) =
      sinks empty_outputs (sink_name 3)"
    by (simp add: NUM_LETTERS_def)
  then have s3: "sinks (reducer (fails_on ''d.txt'') ?rs 0 1 empty_outputs) ''d.txt'' = None"
    by (simp add: names empty_outputs_def)
  from t have "sinks (reducer (fails_on ''d.txt'') ?rs 0 1 empty_outputs) (sink_name 4) =
      sinks empty_outputs (sink_name 4)"
    by (simp add: NUM_LETTERS_def)
  then have s4: "sinks (reducer (fails_on ''d.txt'') ?rs 0 1 empty_outputs) ''e.txt'' = None"
    by (simp add: names empty_outputs_def)
  show ?thesis
    by (intro conjI) (fact h1 h2 h3 f0 f1 f2 c s2 s3 s4)+
qed

text \<open>
  C2, as the specification states it: merging a file takes each shard's lock once per
  distinct first letter of the file, not once per word. In the code the lock is taken inside
  \<^verbatim>\<open>add_table\<close>, which the mapper calls once for every word of \<^verbatim>\<open>local_results\<close>: a file
  with the words \<^verbatim>\<open>ab\<close> and \<^verbatim>\<open>ac\<close> touches one letter and takes the lock of shard 0 twice.
\<close>

theorem one_lock_per_letter_counterexample:
  "map fst (file_calls ''ab ac'') = [0, 0]
   \<and> acquisitions 0 (merge_locks (file_calls ''ab ac'')) = 2"
  by code_simp

text \<open>
  C2, amended: merging a file's Local Aggregate takes the lock of a shard once per distinct
  word of the file in that shard (once per pair of letter and distinct word, however often
  the word occurs): each call of \<^verbatim>\<open>add_table\<close> takes the lock, applies one word and releases
  the lock.
\<close>

theorem one_lock_per_distinct_word:
  "acquisitions l (merge_locks (file_calls content)) =
     card {w. w \<in> set (file_words content) \<and> nat (letter_index w) = l}
   \<and> merge_locks (file_calls content) =
       concat (map (\<lambda>(l, w). [Lock l, Unlock l]) (file_calls content))"
proof
  have "{w. (l, w) \<in> set (file_calls content)} =
        {w. w \<in> set (file_words content) \<and> nat (letter_index w) = l}"
    by (auto simp: file_calls_set)
  with lock_count[OF file_calls_distinct, of content l]
  show "acquisitions l (merge_locks (file_calls content)) =
     card {w. w \<in> set (file_words content) \<and> nat (letter_index w) = l}"
    by (simp add: acquisitions_def)
  show "merge_locks (file_calls content) =
       concat (map (\<lambda>(l, w). [Lock l, Unlock l]) (file_calls content))"
    by (simp add: merge_locks_def add_table_locks_def)
qed

theorem one_lock_per_distinct_word_witness:
  "card {w. w \<in> set (file_words ''ab ac Ab! ab'') \<and> nat (letter_index w) = 0} = 2"
proof -
  have "acquisitions 0 (merge_locks (file_calls ''ab ac Ab! ab'')) = 2" by code_simp
  with one_lock_per_distinct_word[of 0 "''ab ac Ab! ab''"] show ?thesis by simp
qed

text \<open>
  C3: the run is deterministic. Two runs on the same manifest and files, with any numbers
  of mappers (at least one each), any schedules of the mappers that reach the barrier, any
  numbers of reducers (at least one each) taken in any order, and output sinks that can be
  created, write the same 26 artifacts and nothing else; the ids of an emitted word are
  the 1-based manifest positions of the files that opened and contain it.
\<close>

theorem run_deterministic:
  assumes "pipeline fs m1 sched1 can_create R1 order1 = Some out1"
    and "pipeline fs m2 sched2 can_create R2 order2 = Some out2"
    and "0 < m1" "0 < m2" "0 < R1" "0 < R2"
    and "set order1 = {0 ..< R1}" "set order2 = {0 ..< R2}"
    and "\<forall>l < NUM_LETTERS. can_create (sink_name l)"
  shows "sinks out1 = sinks out2
       \<and> (\<forall>l < NUM_LETTERS.
             sinks out1 (sink_name l) = Some (concat (map format_entry (emitted fs m1 sched1 l)))
           \<and> emitted fs m1 sched1 l = emitted fs m2 sched2 l
           \<and> (\<forall>e \<in> set (emitted fs m1 sched1 l). set (file_ids e) = expected_ids fs (word e)))"
proof -
  note d1 = pipeline_Some[OF assms(1)] and d2 = pipeline_Some[OF assms(2)]
  have same: "emitted fs m1 sched1 l = emitted fs m2 sched2 l" if "l < NUM_LETTERS" for l
    using assms(3) d1(1) assms(4) d2(1) that by (rule emitted_same)
  have s1: "sinks out1 (sink_name l) = Some (concat (map format_entry (emitted fs m1 sched1 l)))"
    if "l < NUM_LETTERS" for l
    using assms(1,5,7,9) that by (rule pipeline_sinks)
  have s2: "sinks out2 (sink_name l) = Some (concat (map format_entry (emitted fs m2 sched2 l)))"
    if "l < NUM_LETTERS" for l
    using assms(2,6,8,9) that by (rule pipeline_sinks)
  have "sinks out1 n = sinks out2 n" for n
  proof (cases "n \<in> sink_name ` {0 ..< NUM_LETTERS}")
    case True
    then obtain l where "l < NUM_LETTERS" "n = sink_name l" by auto
    with s1[of l] s2[of l] same[of l] show ?thesis by simp
  next
    case False
    then show ?thesis
      unfolding d1(2) d2(2) by (simp add: reduce_phase_other)
  qed
  then have "sinks out1 = sinks out2" by (rule ext)
  moreover have "set (file_ids e) = expected_ids fs (word e)"
    if "l < NUM_LETTERS" "e \<in> set (emitted fs m1 sched1 l)" for l e
    using emitted_ids[OF assms(3) d1(1) that] by simp
  ultimately show ?thesis using s1 same by blast
qed

theorem run_deterministic_witness:
  "pipeline example_files 2 example_sched all_creatable 3 [2, 0, 1] \<noteq> None
   \<and> pipeline example_files 1 (replicate 12 0) all_creatable 1 [0] \<noteq> None
   \<and> (0::nat) < 2 \<and> (0::nat) < 1 \<and> (0::nat) < 3 \<and> set [2, 0, 1] = {0 ..< (3::nat)}
   \<and> set [0] = {0 ..< (1::nat)}
   \<and> sinks (the (pipeline example_files 2 example_sched all_creatable 3 [2, 0, 1])) =
     sinks (the (pipeline example_files 1 (replicate 12 0) all_creatable 1 [0]))
   \<and> sinks (the (pipeline example_files 2 example_sched all_creatable 3 [2, 0, 1])) ''d.txt'' =
     Some ''dog:[1 2]\<newline>''
   \<and> emitted example_files 2 example_sched 3 = emitted example_files 1 (replicate 12 0) 3"
proof -
  have md1: "map_done (exec example_files example_sched (init 2 example_files))" by code_simp
  have md2: "map_done (exec example_files (replicate 12 0) (init 1 example_files))" by code_simp
  have p1: "pipeline example_files 2 example_sched all_creatable 3 [2, 0, 1] =
      Some (the (pipeline example_files 2 example_sched all_creatable 3 [2, 0, 1]))"
    using md1 by (simp add: pipeline_def Let_def)
  have p2: "pipeline example_files 1 (replicate 12 0) all_creatable 1 [0] =
      Some (the (pipeline example_files 1 (replicate 12 0) all_creatable 1 [0]))"
    using md2 by (simp add: pipeline_def Let_def)
  have o1: "set [2, 0, 1] = {0 ..< (3::nat)}" by auto
  have o2: "set [0] = {0 ..< (1::nat)}" by auto
  have can: "\<forall>l < NUM_LETTERS. all_creatable (sink_name l)" by (simp add: all_creatable_def)
  have l3: "(3::nat) < NUM_LETTERS" by (simp add: NUM_LETTERS_def)
  have n3: "sink_name 3 = ''d.txt''" by code_simp
  have em: "concat (map format_entry (emitted example_files 2 example_sched 3)) = ''dog:[1 2]\<newline>''"
    by code_simp
  have z2: "(0::nat) < 2" and z1: "(0::nat) < 1" and z3: "(0::nat) < 3" by simp_all
  note t = run_deterministic[OF p1 p2 z2 z1 z3 z1 o1 o2 can]
  from t have a: "sinks (the (pipeline example_files 2 example_sched all_creatable 3 [2, 0, 1])) =
     sinks (the (pipeline example_files 1 (replicate 12 0) all_creatable 1 [0]))"
    by blast
  from t l3 have b: "sinks (the (pipeline example_files 2 example_sched all_creatable 3 [2, 0, 1]))
      (sink_name 3) = Some (concat (map format_entry (emitted example_files 2 example_sched 3)))"
    by blast
  from t l3 have c: "emitted example_files 2 example_sched 3 =
      emitted example_files 1 (replicate 12 0) 3"
    by blast
  have q1: "pipeline example_files 2 example_sched all_creatable 3 [2, 0, 1] \<noteq> None"
    using md1 by (simp add: pipeline_def Let_def)
  have q2: "pipeline example_files 1 (replicate 12 0) all_creatable 1 [0] \<noteq> None"
    using md2 by (simp add: pipeline_def Let_def)
  from b have b': "sinks (the (pipeline example_files 2 example_sched all_creatable 3 [2, 0, 1]))
      ''d.txt'' = Some ''dog:[1 2]\<newline>''"
    by (simp only: n3 em)
  show ?thesis
    by (intro conjI) (fact q1 q2 o1 o2 a b' c | simp)+
qed

text \<open>
  C4, as the specification states it: every word that appears, after cleaning, in a file that
  opened appears in exactly one of the 26 artifacts, the one of its first letter. The reducer
  returns at the first sink that it cannot create: with the one file \<^verbatim>\<open>apple bee\<close>, one mapper,
  one reducer and \<^verbatim>\<open>a.txt\<close> the only sink that cannot be created, the run ends, \<^verbatim>\<open>bee\<close> is in
  the table of shard 1, and neither \<^verbatim>\<open>b.txt\<close> nor any other artifact is written.
\<close>

theorem completeness_counterexample:
  "''bee'' \<in> set (file_words ''apple bee'')
   \<and> pipeline [Some ''apple bee''] 1 (replicate 8 0) (fails_on ''a.txt'') 1 [0] \<noteq> None
   \<and> fails_on ''a.txt'' ''b.txt''
   \<and> map word (emitted [Some ''apple bee''] 1 (replicate 8 0) 1) = [''bee'']
   \<and> sinks (the (pipeline [Some ''apple bee''] 1 (replicate 8 0) (fails_on ''a.txt'') 1 [0]))
        ''b.txt'' = None
   \<and> sinks (the (pipeline [Some ''apple bee''] 1 (replicate 8 0) (fails_on ''a.txt'') 1 [0]))
        ''a.txt'' = None"
  by code_simp

text \<open>
  C4, amended: completeness. In a run with at least one mapper, every word that appears, after
  cleaning, in a file that opened has an entry among the entries of the shard of its first
  letter and of no other shard. The artifact of a shard is written exactly when a reducer has
  the shard in its range and can create the sinks of its range up to that shard, and it then
  holds the entries of the shard: so the word appears in the artifact of its first letter
  whenever that artifact is written (always, when all 26 sinks can be created and there is a
  reducer), and in no other artifact. Every schedule that gives each mapper enough steps
  is such a run.
\<close>

theorem completeness_of_written_artifacts:
  assumes "0 < m" "set order = {0 ..< R}"
    and "f < length fs" "fs ! f = Some content" "w \<in> set (file_words content)"
  shows "w \<noteq> [] \<and> nat (letter_index w) < NUM_LETTERS
       \<and> hd w = letter_char (nat (letter_index w))
       \<and> ((\<forall>j < m. work fs (init m fs) \<le> count_list sched j) \<longrightarrow>
            (\<exists>out. pipeline fs m sched can_create R order = Some out
               \<and> w \<in> set (map word (emitted fs m sched (nat (letter_index w))))
               \<and> sinks out (sink_name (nat (letter_index w))) =
                   (if shard_written can_create R (nat (letter_index w))
                    then Some (concat (map format_entry (emitted fs m sched (nat (letter_index w)))))
                    else None)))
       \<and> (\<forall>out. pipeline fs m sched can_create R order = Some out \<longrightarrow>
            (\<forall>l < NUM_LETTERS.
               (w \<in> set (map word (emitted fs m sched l)) \<longleftrightarrow> l = nat (letter_index w))
             \<and> sinks out (sink_name l) =
                 (if shard_written can_create R l
                  then Some (concat (map format_entry (emitted fs m sched l))) else None)))
       \<and> ((\<forall>l < NUM_LETTERS. can_create (sink_name l)) \<and> 0 < R \<longrightarrow>
            (\<forall>l < NUM_LETTERS. shard_written can_create R l))"
proof -
  note w = file_words_shard[OF assms(5)]
  from letter_index_hd[OF w(2), of w] w(3)
  have hd: "hd w = letter_char (nat (letter_index w))" by simp
  have ne: "expected_ids fs w \<noteq> {}"
    using expected_ids_in[OF assms(3,4,5)] by blast
  have run: "(\<forall>l < NUM_LETTERS.
               (w \<in> set (map word (emitted fs m sched l)) \<longleftrightarrow> l = nat (letter_index w))
             \<and> sinks out (sink_name l) =
                 (if shard_written can_create R l
                  then Some (concat (map format_entry (emitted fs m sched l))) else None))"
    if p: "pipeline fs m sched can_create R order = Some out" for out
  proof (intro allI impI conjI)
    fix l assume l: "l < NUM_LETTERS"
    show "w \<in> set (map word (emitted fs m sched l)) \<longleftrightarrow> l = nat (letter_index w)"
      using emitted_has[OF assms(1) pipeline_Some(1)[OF p] l, of w] ne by simp
    show "sinks out (sink_name l) =
                 (if shard_written can_create R l
                  then Some (concat (map format_entry (emitted fs m sched l))) else None)"
      using p assms(2) l by (rule pipeline_sinks_written)
  qed
  have fair: "\<exists>out. pipeline fs m sched can_create R order = Some out
               \<and> w \<in> set (map word (emitted fs m sched (nat (letter_index w))))
               \<and> sinks out (sink_name (nat (letter_index w))) =
                   (if shard_written can_create R (nat (letter_index w))
                    then Some (concat (map format_entry (emitted fs m sched (nat (letter_index w)))))
                    else None)"
    if "\<forall>j < m. work fs (init m fs) \<le> count_list sched j"
  proof -
    note p = fair_pipeline[OF that, of can_create R order]
    from run[OF p] w(2) show ?thesis using p by blast
  qed
  have all: "\<forall>l < NUM_LETTERS. shard_written can_create R l"
    if "(\<forall>l < NUM_LETTERS. can_create (sink_name l)) \<and> 0 < R"
    using that shard_written_all by blast
  from w(1,2) hd fair run all show ?thesis by blast
qed

theorem completeness_of_written_artifacts_witness:
  "(0::nat) < 2 \<and> set [2, 0, 1] = {0 ..< (3::nat)}
   \<and> (0::nat) < length example_files \<and> example_files ! 0 = Some ''Cat cat DOG''
   \<and> ''cat'' \<in> set (file_words ''Cat cat DOG'')
   \<and> work example_files (init 2 example_files) = 12
   \<and> count_list (round_robin 2 12) 0 = 12 \<and> count_list (round_robin 2 12) 1 = 12
   \<and> nat (letter_index ''cat'') = 2
   \<and> pipeline example_files 2 (round_robin 2 12) (fails_on ''d.txt'') 3 [2, 0, 1] \<noteq> None
   \<and> ''cat'' \<in> set (map word (emitted example_files 2 (round_robin 2 12) 2))
   \<and> ''cat'' \<notin> set (map word (emitted example_files 2 (round_robin 2 12) 3))
   \<and> shard_written (fails_on ''d.txt'') 3 2 \<and> \<not> shard_written (fails_on ''d.txt'') 3 3
   \<and> sinks (the (pipeline example_files 2 (round_robin 2 12) (fails_on ''d.txt'') 3 [2, 0, 1]))
        ''c.txt'' = Some ''cat:[1 2]\<newline>''
   \<and> sinks (the (pipeline example_files 2 (round_robin 2 12) (fails_on ''d.txt'') 3 [2, 0, 1]))
        ''d.txt'' = None"
proof -
  let ?p = "pipeline example_files 2 (round_robin 2 12) (fails_on ''d.txt'') 3 [2, 0, 1]"
  have z2: "(0::nat) < 2" by simp
  have o1: "set [2, 0, 1] = {0 ..< (3::nat)}" by auto
  have f0: "(0::nat) < length example_files" by (simp add: example_files_def)
  have f1: "example_files ! 0 = Some ''Cat cat DOG''" by (simp add: example_files_def)
  have f2: "''cat'' \<in> set (file_words ''Cat cat DOG'')" by code_simp
  have wk: "work example_files (init 2 example_files) = 12" by code_simp
  have c0: "count_list (round_robin 2 12) 0 = 12" by code_simp
  have c1: "count_list (round_robin 2 12) 1 = 12" by code_simp
  have li: "nat (letter_index ''cat'') = 2" by code_simp
  have l2: "(2::nat) < NUM_LETTERS" and l3: "(3::nat) < NUM_LETTERS" by (simp_all add: NUM_LETTERS_def)
  have n2: "sink_name 2 = ''c.txt''" by code_simp
  have n3: "sink_name 3 = ''d.txt''" by code_simp
  have sw2: "shard_written (fails_on ''d.txt'') 3 2" by code_simp
  have sw3: "\<not> shard_written (fails_on ''d.txt'') 3 3" by code_simp
  have em: "concat (map format_entry (emitted example_files 2 (round_robin 2 12) 2)) =
      ''cat:[1 2]\<newline>''" by code_simp
  have fair: "\<forall>j < 2. work example_files (init 2 example_files) \<le> count_list (round_robin 2 12) j"
  proof (intro allI impI)
    fix j :: nat assume "j < 2"
    then have "j = 0 \<or> j = 1" by auto
    with c0 c1 wk show "work example_files (init 2 example_files) \<le> count_list (round_robin 2 12) j"
      by auto
  qed
  note t = completeness_of_written_artifacts[OF z2 o1 f0 f1 f2,
      of "round_robin 2 12" "fails_on ''d.txt''"]
  from t fair obtain out where out: "?p = Some out"
      "''cat'' \<in> set (map word (emitted example_files 2 (round_robin 2 12) (nat (letter_index ''cat''))))"
    by blast
  from out(1) have pn: "?p \<noteq> None" by simp
  from out(1) have th: "the ?p = out" by simp
  from out(2) have a: "''cat'' \<in> set (map word (emitted example_files 2 (round_robin 2 12) 2))"
    by (simp only: li)
  from t out(1) have r: "\<forall>l < NUM_LETTERS.
       (''cat'' \<in> set (map word (emitted example_files 2 (round_robin 2 12) l)) \<longleftrightarrow>
          l = nat (letter_index ''cat''))
       \<and> sinks out (sink_name l) =
           (if shard_written (fails_on ''d.txt'') 3 l
            then Some (concat (map format_entry (emitted example_files 2 (round_robin 2 12) l)))
            else None)"
    by blast
  have e3: "3 \<noteq> nat (letter_index ''cat'')" using li by simp
  from r[rule_format, OF l3] e3
  have b: "''cat'' \<notin> set (map word (emitted example_files 2 (round_robin 2 12) 3))" by blast
  from r[rule_format, OF l2] sw2
  have "sinks out (sink_name 2) =
      Some (concat (map format_entry (emitted example_files 2 (round_robin 2 12) 2)))"
    by simp
  then have c: "sinks (the ?p) ''c.txt'' = Some ''cat:[1 2]\<newline>''"
    by (simp only: th n2 em)
  from r[rule_format, OF l3] sw3 have "sinks out (sink_name 3) = None" by simp
  then have d: "sinks (the ?p) ''d.txt'' = None" by (simp only: th n3)
  show ?thesis
    by (intro conjI) (fact z2 o1 f0 f1 f2 wk c0 c1 li pn a b sw2 sw3 c d)+
qed

text \<open>
  C5: idempotent word/file association. In a run with at least one mapper, when a word occurs
  in a file that opened, once or many times, the emitted entry of the word (there is exactly
  one) holds the file's 1-based id exactly once. This holds at the end of the map phase, which
  every schedule that gives each mapper enough steps reaches; and \<^verbatim>\<open>add_table\<close> with an
  id that the entry already holds changes nothing.
\<close>

theorem idempotent_association:
  assumes "0 < m" and "f < length fs" "fs ! f = Some content" "w \<in> set (file_words content)"
  shows "((\<forall>j < m. work fs (init m fs) \<le> count_list sched j) \<longrightarrow>
            map_done (exec fs sched (init m fs))
            \<and> (\<exists>e. filter (\<lambda>e. word e = w) (emitted fs m sched (nat (letter_index w))) = [e]
                  \<and> count_list (file_ids e) (int f + 1) = 1))
       \<and> (map_done (exec fs sched (init m fs)) \<longrightarrow>
            (\<exists>e. filter (\<lambda>e. word e = w) (emitted fs m sched (nat (letter_index w))) = [e]
                  \<and> count_list (file_ids e) (int f + 1) = 1))
       \<and> (ids_increasing t \<and> map_of t w' = Some e' \<and> int f' + 1 \<in> set (file_ids e')
            \<longrightarrow> add_table t w' f' = t)"
proof -
  let ?l = "nat (letter_index w)"
  let ?es = "emitted fs m sched ?l"
  have l: "?l < NUM_LETTERS" using assms(4) by (rule file_words_shard)
  have ok: "table_ok (results (exec fs sched (init m fs)) ! ?l)"
    using l by (rule reachable_table_ok)
  have ne: "expected_ids fs w \<noteq> {}"
    using expected_ids_in[OF assms(2,3,4)] by blast
  have fin: "\<exists>e. filter (\<lambda>e. word e = w) ?es = [e] \<and> count_list (file_ids e) (int f + 1) = 1"
    if md: "map_done (exec fs sched (init m fs))"
  proof -
    from emitted_has[OF assms(1) md l, of w] ne obtain e where e: "e \<in> set ?es" "word e = w"
      by auto
    have d: "distinct (map word ?es)"
      unfolding emitted_def using ok by (rule distinct_words_array)
    from filter_unique[OF d e(1)] e(2) have one: "filter (\<lambda>e. word e = w) ?es = [e]" by simp
    from emitted_ids[OF assms(1) md l e(1)] e(2)
    have ids: "set (file_ids e) = expected_ids fs w" "sorted_wrt (<) (file_ids e)" by simp_all
    from ids(1) expected_ids_in[OF assms(2,3,4)] have "int f + 1 \<in> set (file_ids e)" by simp
    moreover from ids(2) have "distinct (file_ids e)" by (simp add: strict_sorted_iff)
    ultimately have "count_list (file_ids e) (int f + 1) = 1" by (intro count_list_distinct)
    with one show ?thesis by blast
  qed
  have fair: "map_done (exec fs sched (init m fs))
            \<and> (\<exists>e. filter (\<lambda>e. word e = w) ?es = [e] \<and> count_list (file_ids e) (int f + 1) = 1)"
    if "\<forall>j < m. work fs (init m fs) \<le> count_list sched j"
    using map_phase_terminates[OF that] fin by blast
  have noop: "ids_increasing t \<and> map_of t w' = Some e' \<and> int f' + 1 \<in> set (file_ids e')
            \<longrightarrow> add_table t w' f' = t"
    using add_table_noop by blast
  from fair fin noop show ?thesis by blast
qed

theorem idempotent_association_witness:
  "(0::nat) < 2 \<and> (0::nat) < length example_files \<and> example_files ! 0 = Some ''Cat cat DOG''
   \<and> ''cat'' \<in> set (file_words ''Cat cat DOG'')
   \<and> count_list (file_words ''Cat cat DOG'') ''cat'' = 2
   \<and> work example_files (init 2 example_files) = 12
   \<and> count_list (round_robin 2 12) 0 = 12 \<and> count_list (round_robin 2 12) 1 = 12
   \<and> map_done (exec example_files (round_robin 2 12) (init 2 example_files))
   \<and> filter (\<lambda>e. word e = ''cat'') (emitted example_files 2 (round_robin 2 12) 2)
       = [\<lparr>word = ''cat'', file_ids = [1, 2]\<rparr>]
   \<and> count_list [1, 2] (int 0 + 1) = 1
   \<and> add_table [(''cat'', \<lparr>word = ''cat'', file_ids = [1, 2]\<rparr>)] ''cat'' 0
       = [(''cat'', \<lparr>word = ''cat'', file_ids = [1, 2]\<rparr>)]"
proof -
  have f0: "(0::nat) < length example_files" by (simp add: example_files_def)
  have f1: "example_files ! 0 = Some ''Cat cat DOG''" by (simp add: example_files_def)
  have f2: "''cat'' \<in> set (file_words ''Cat cat DOG'')" by code_simp
  have f3: "count_list (file_words ''Cat cat DOG'') ''cat'' = 2" by code_simp
  have wk: "work example_files (init 2 example_files) = 12" by code_simp
  have c0: "count_list (round_robin 2 12) 0 = 12" by code_simp
  have c1: "count_list (round_robin 2 12) 1 = 12" by code_simp
  have li: "nat (letter_index ''cat'') = 2" by code_simp
  have em: "filter (\<lambda>e. word e = ''cat'') (emitted example_files 2 (round_robin 2 12) 2)
       = [\<lparr>word = ''cat'', file_ids = [1, 2]\<rparr>]" by code_simp
  have t0: "ids_increasing [(''cat'', \<lparr>word = ''cat'', file_ids = [1, 2]\<rparr>)]"
    by (simp add: ids_increasing_def)
  have z2: "(0::nat) < 2" by simp
  have fair: "\<forall>j < 2. work example_files (init 2 example_files) \<le> count_list (round_robin 2 12) j"
  proof (intro allI impI)
    fix j :: nat assume "j < 2"
    then have "j = 0 \<or> j = 1" by auto
    with c0 c1 wk show "work example_files (init 2 example_files) \<le> count_list (round_robin 2 12) j"
      by auto
  qed
  note t = idempotent_association[OF z2 f0 f1 f2,
      of "round_robin 2 12" "[(''cat'', \<lparr>word = ''cat'', file_ids = [1, 2]\<rparr>)]" "''cat''"
         "\<lparr>word = ''cat'', file_ids = [1, 2]\<rparr>" 0]
  from t fair have md: "map_done (exec example_files (round_robin 2 12) (init 2 example_files))"
    by blast
  from t fair obtain e where e: "filter (\<lambda>e. word e = ''cat'')
        (emitted example_files 2 (round_robin 2 12) (nat (letter_index ''cat''))) = [e]"
      "count_list (file_ids e) (int 0 + 1) = 1"
    by blast
  from e(1) have "e = \<lparr>word = ''cat'', file_ids = [1, 2]\<rparr>"
    by (simp only: li em list.inject)
  with e(2) have a: "count_list [1, 2] (int 0 + 1) = 1" by simp
  have m0: "map_of [(''cat'', \<lparr>word = ''cat'', file_ids = [1, 2]\<rparr>)] ''cat'' =
      Some \<lparr>word = ''cat'', file_ids = [1, 2]\<rparr>" by simp
  have i0: "int 0 + 1 \<in> set (file_ids \<lparr>word = ''cat'', file_ids = [1, 2]\<rparr>)" by simp
  from t t0 m0 i0 have b: "add_table [(''cat'', \<lparr>word = ''cat'', file_ids = [1, 2]\<rparr>)] ''cat'' 0
       = [(''cat'', \<lparr>word = ''cat'', file_ids = [1, 2]\<rparr>)]" by blast
  show ?thesis
    by (intro conjI) (fact z2 f0 f1 f2 f3 wk c0 c1 md em a b)+
qed

text \<open>
  C6: the WordEntry invariant. The list \<^verbatim>\<open>file_ids\<close> of every entry is strictly increasing,
  with no duplicates: a call of \<^verbatim>\<open>add_table\<close> keeps it so, it holds after any sequence of
  calls on an empty table, and it holds in every shard in every state that the map phase
  can reach, hence in every entry that a reducer emits.
\<close>

theorem file_ids_strictly_increasing:
  "(ids_increasing t \<longrightarrow> ids_increasing (add_table t w file_id))
   \<and> ids_increasing (add_all [] ops)
   \<and> (\<forall>l < NUM_LETTERS.
        ids_increasing (results (exec fs sched (init m fs)) ! l)
        \<and> (\<forall>e \<in> set (emitted fs m sched l).
              sorted_wrt (<) (file_ids e) \<and> distinct (file_ids e)))"
proof (intro conjI allI impI)
  assume "ids_increasing t"
  then show "ids_increasing (add_table t w file_id)" by (rule ids_increasing_add_table)
next
  have "ids_increasing []" by (simp add: ids_increasing_def)
  then show "ids_increasing (add_all [] ops)" by (rule ids_increasing_add_all)
next
  fix l assume l: "l < NUM_LETTERS"
  from reachable_table_ok[OF l] show "ids_increasing (results (exec fs sched (init m fs)) ! l)"
    by (rule table_ok_ids_increasing)
next
  fix l assume l: "l < NUM_LETTERS"
  show "\<forall>e \<in> set (emitted fs m sched l). sorted_wrt (<) (file_ids e) \<and> distinct (file_ids e)"
    unfolding emitted_def using words_array_entry[OF reachable_table_ok[OF l]]
    by (auto simp: strict_sorted_iff)
qed

theorem file_ids_strictly_increasing_witness:
  "ids_increasing [(''cat'', \<lparr>word = ''cat'', file_ids = [1, 4]\<rparr>)]
   \<and> add_table [(''cat'', \<lparr>word = ''cat'', file_ids = [1, 4]\<rparr>)] ''cat'' 2
       = [(''cat'', \<lparr>word = ''cat'', file_ids = [1, 3, 4]\<rparr>)]
   \<and> ids_increasing [(''cat'', \<lparr>word = ''cat'', file_ids = [1, 3, 4]\<rparr>)]
   \<and> ids_increasing (add_all [] [(''cat'', 3), (''dog'', 0), (''cat'', 0), (''cat'', 3)])
   \<and> (2::nat) < NUM_LETTERS
   \<and> emitted example_files 2 example_sched 2 = [\<lparr>word = ''cat'', file_ids = [1, 2]\<rparr>]
   \<and> sorted_wrt (<) [1, 2 :: int] \<and> distinct [1, 2 :: int]"
proof -
  have t0: "ids_increasing [(''cat'', \<lparr>word = ''cat'', file_ids = [1, 4]\<rparr>)]"
    by (simp add: ids_increasing_def)
  have a: "add_table [(''cat'', \<lparr>word = ''cat'', file_ids = [1, 4]\<rparr>)] ''cat'' 2
       = [(''cat'', \<lparr>word = ''cat'', file_ids = [1, 3, 4]\<rparr>)]"
    by code_simp
  have l2: "(2::nat) < NUM_LETTERS" by (simp add: NUM_LETTERS_def)
  have em: "emitted example_files 2 example_sched 2 = [\<lparr>word = ''cat'', file_ids = [1, 2]\<rparr>]"
    by code_simp
  note t = file_ids_strictly_increasing[of "[(''cat'', \<lparr>word = ''cat'', file_ids = [1, 4]\<rparr>)]"
      "''cat''" 2 "[(''cat'', 3), (''dog'', 0), (''cat'', 0), (''cat'', 3)]"
      example_files example_sched 2]
  from t t0 have "ids_increasing (add_table [(''cat'', \<lparr>word = ''cat'', file_ids = [1, 4]\<rparr>)] ''cat'' 2)"
    by blast
  then have b: "ids_increasing [(''cat'', \<lparr>word = ''cat'', file_ids = [1, 3, 4]\<rparr>)]"
    by (simp only: a)
  from t have c: "ids_increasing (add_all [] [(''cat'', 3), (''dog'', 0), (''cat'', 0), (''cat'', 3)])"
    by blast
  from t l2 have "\<forall>e \<in> set (emitted example_files 2 example_sched 2).
      sorted_wrt (<) (file_ids e) \<and> distinct (file_ids e)"
    by blast
  then have d: "sorted_wrt (<) [1, 2 :: int] \<and> distinct [1, 2 :: int]"
    by (simp add: em)
  show ?thesis
    by (intro conjI) (fact t0 a b c l2 em d[THEN conjunct1] d[THEN conjunct2])+
qed

text \<open>
  C7: the sort order. The entries of every artifact are in strict order by the comparison of
  the reducer: more file ids first, and among entries with as many ids the smaller word
  first. Every two adjacent entries are in this order, the number of ids of an entry is the
  number of its distinct files, and on the entries of one shard, whose words are distinct,
  the comparison is a strict total order.
\<close>

theorem sort_order:
  assumes "l < NUM_LETTERS"
  shows "sorted_wrt entry_before (emitted fs m sched l)
       \<and> (\<forall>i. Suc i < length (emitted fs m sched l) \<longrightarrow>
             entry_before (emitted fs m sched l ! i) (emitted fs m sched l ! Suc i))
       \<and> (entry_before a b \<longleftrightarrow>
             length (file_ids a) > length (file_ids b)
             \<or> (length (file_ids a) = length (file_ids b) \<and> word a < word b))
       \<and> (\<forall>e \<in> set (emitted fs m sched l). length (file_ids e) = card (set (file_ids e)))
       \<and> distinct (map word (emitted fs m sched l))
       \<and> (\<forall>x \<in> set (emitted fs m sched l). \<forall>y \<in> set (emitted fs m sched l).
             x \<noteq> y \<longrightarrow> entry_before x y \<or> entry_before y x)
       \<and> (\<forall>x y z. \<not> entry_before x x
             \<and> (entry_before x y \<longrightarrow> \<not> entry_before y x)
             \<and> (entry_before x y \<and> entry_before y z \<longrightarrow> entry_before x z))"
proof -
  let ?es = "emitted fs m sched l"
  have ok: "table_ok (results (exec fs sched (init m fs)) ! l)"
    using assms by (rule reachable_table_ok)
  have srt: "sorted_wrt entry_before ?es"
    unfolding emitted_def using ok by (rule sorted_words_array)
  have adj: "\<forall>i. Suc i < length ?es \<longrightarrow> entry_before (?es ! i) (?es ! Suc i)"
    using srt by (simp add: sorted_wrt_iff_nth_less)
  have cmp: "entry_before a b \<longleftrightarrow>
             length (file_ids a) > length (file_ids b)
             \<or> (length (file_ids a) = length (file_ids b) \<and> word a < word b)"
    by (auto simp: entry_before_def)
  have cnt: "\<forall>e \<in> set ?es. length (file_ids e) = card (set (file_ids e))"
  proof
    fix e assume "e \<in> set ?es"
    then have "sorted_wrt (<) (file_ids e)"
      unfolding emitted_def using words_array_entry[OF ok] by blast
    then have "distinct (file_ids e)" by (simp add: strict_sorted_iff)
    then show "length (file_ids e) = card (set (file_ids e))" by (simp add: distinct_card)
  qed
  have dis: "distinct (map word ?es)"
    unfolding emitted_def using ok by (rule distinct_words_array)
  have tot: "\<forall>x \<in> set ?es. \<forall>y \<in> set ?es. x \<noteq> y \<longrightarrow> entry_before x y \<or> entry_before y x"
  proof (intro ballI impI)
    fix x y assume xy: "x \<in> set ?es" "y \<in> set ?es" "x \<noteq> y"
    from dis have "inj_on word (set ?es)" by (simp add: distinct_map)
    with xy have "word x \<noteq> word y" by (auto dest: inj_onD)
    then show "entry_before x y \<or> entry_before y x" by (rule entry_before_total)
  qed
  have ord: "\<forall>x y z. \<not> entry_before x x
             \<and> (entry_before x y \<longrightarrow> \<not> entry_before y x)
             \<and> (entry_before x y \<and> entry_before y z \<longrightarrow> entry_before x z)"
    using entry_before_irrefl entry_before_asym entry_before_trans by blast
  from srt adj cmp cnt dis tot ord show ?thesis by blast
qed

theorem sort_order_witness:
  "(0::nat) < NUM_LETTERS
   \<and> emitted [Some ''ab Ax ax'', Some ''ax by ac'', None] 1 (replicate 20 0) 0
       = [\<lparr>word = ''ax'', file_ids = [1, 2]\<rparr>, \<lparr>word = ''ab'', file_ids = [1]\<rparr>,
          \<lparr>word = ''ac'', file_ids = [2]\<rparr>]
   \<and> sorted_wrt entry_before
        [\<lparr>word = ''ax'', file_ids = [1, 2]\<rparr>, \<lparr>word = ''ab'', file_ids = [1]\<rparr>,
         \<lparr>word = ''ac'', file_ids = [2]\<rparr>]
   \<and> entry_before \<lparr>word = ''ax'', file_ids = [1, 2]\<rparr> \<lparr>word = ''ab'', file_ids = [1]\<rparr>
   \<and> entry_before \<lparr>word = ''ab'', file_ids = [1]\<rparr> \<lparr>word = ''ac'', file_ids = [2]\<rparr>"
proof -
  have l0: "(0::nat) < NUM_LETTERS" by (simp add: NUM_LETTERS_def)
  have em: "emitted [Some ''ab Ax ax'', Some ''ax by ac'', None] 1 (replicate 20 0) 0
       = [\<lparr>word = ''ax'', file_ids = [1, 2]\<rparr>, \<lparr>word = ''ab'', file_ids = [1]\<rparr>,
          \<lparr>word = ''ac'', file_ids = [2]\<rparr>]"
    by code_simp
  note t = sort_order[OF l0, of "[Some ''ab Ax ax'', Some ''ax by ac'', None]" 1 "replicate 20 0"]
  from t have "sorted_wrt entry_before
      (emitted [Some ''ab Ax ax'', Some ''ax by ac'', None] 1 (replicate 20 0) 0)"
    by blast
  then have s: "sorted_wrt entry_before
        [\<lparr>word = ''ax'', file_ids = [1, 2]\<rparr>, \<lparr>word = ''ab'', file_ids = [1]\<rparr>,
         \<lparr>word = ''ac'', file_ids = [2]\<rparr>]"
    by (simp only: em)
  from s have a: "entry_before \<lparr>word = ''ax'', file_ids = [1, 2]\<rparr> \<lparr>word = ''ab'', file_ids = [1]\<rparr>"
    and b: "entry_before \<lparr>word = ''ab'', file_ids = [1]\<rparr> \<lparr>word = ''ac'', file_ids = [2]\<rparr>"
    by simp_all
  show ?thesis
    by (intro conjI) (fact l0 em s a b)+
qed

text \<open>
  C8: partition coverage. For every number \<open>R\<close> of reducers from 1 to 26, the ranges of shards
  that the reducers 0, ..., \<open>R - 1\<close> loop over, from \<open>i * 26 / R\<close> up to but not including
  \<open>(i + 1) * 26 / R\<close>, are pairwise disjoint and contiguous (each starts where the one before
  it ends, the first at 0, the last ending at 26), and their union is the shards 0 to 25.
\<close>

theorem partition_coverage:
  assumes "1 \<le> R" "R \<le> 26"
  shows "(\<forall>i j. i < j \<and> j < R \<longrightarrow>
            set [start_index i R ..< end_index i R] \<inter> set [start_index j R ..< end_index j R] = {})
       \<and> (\<forall>i < R. start_index i R = i * 26 div R \<and> end_index i R = (i + 1) * 26 div R)
       \<and> (\<forall>i. Suc i < R \<longrightarrow> end_index i R = start_index (Suc i) R)
       \<and> start_index 0 R = 0 \<and> end_index (R - 1) R = 26
       \<and> (\<Union>i < R. set [start_index i R ..< end_index i R]) = {0 ..< 26}"
proof -
  from assms(1) have R: "0 < R" by simp
  have "end_index (R - 1) R = start_index (Suc (R - 1)) R"
    using R by (intro end_index_eq) simp_all
  then have last: "end_index (R - 1) R = 26"
    using R by (simp add: start_index_R NUM_LETTERS_def)
  have disj: "\<forall>i j. i < j \<and> j < R \<longrightarrow>
      set [start_index i R ..< end_index i R] \<inter> set [start_index j R ..< end_index j R] = {}"
  proof (intro allI impI)
    fix i j assume "i < j \<and> j < R"
    then have "{start_index i R ..< end_index i R} \<inter> {start_index j R ..< end_index j R} = {}"
      using ranges_disjoint[OF R, of i j] by blast
    then show "set [start_index i R ..< end_index i R] \<inter> set [start_index j R ..< end_index j R] = {}"
      by (simp only: set_upt)
  qed
  have form: "\<forall>i < R. start_index i R = i * 26 div R \<and> end_index i R = (i + 1) * 26 div R"
  proof (intro allI impI)
    fix i assume "i < R"
    then have "end_index i R = start_index (Suc i) R" using R by (intro end_index_eq)
    then show "start_index i R = i * 26 div R \<and> end_index i R = (i + 1) * 26 div R"
      by (simp add: start_index_def NUM_LETTERS_def)
  qed
  have contig: "\<forall>i. Suc i < R \<longrightarrow> end_index i R = start_index (Suc i) R"
    using end_index_eq[OF R] by simp
  have cover: "(\<Union>i < R. set [start_index i R ..< end_index i R]) = {0 ..< 26}"
    using ranges_cover[OF R] by (simp only: set_upt NUM_LETTERS_def)
  from disj form contig cover last show ?thesis
    by (simp only: start_index_0 simp_thms)
qed

theorem partition_coverage_witness:
  "(1::nat) \<le> 3 \<and> (3::nat) \<le> 26
   \<and> [start_index 0 3 ..< end_index 0 3] = [0 ..< 8]
   \<and> [start_index 1 3 ..< end_index 1 3] = [8 ..< 17]
   \<and> [start_index 2 3 ..< end_index 2 3] = [17 ..< 26]
   \<and> (\<Union>i < 3. set [start_index i 3 ..< end_index i 3]) = {0 ..< 26}"
proof -
  have h1: "(1::nat) \<le> 3" and h2: "(3::nat) \<le> 26" by simp_all
  note t = partition_coverage[OF h1 h2]
  from t have u: "(\<Union>i < 3. set [start_index i 3 ..< end_index i 3]) = {0 ..< 26}" by blast
  have r0: "[start_index 0 3 ..< end_index 0 3] = [0 ..< 8]"
    by (simp add: start_index_def end_index_def NUM_LETTERS_def)
  have r1: "[start_index 1 3 ..< end_index 1 3] = [8 ..< 17]"
    by (simp add: start_index_def end_index_def NUM_LETTERS_def)
  have r2: "[start_index 2 3 ..< end_index 2 3] = [17 ..< 26]"
    by (simp add: start_index_def end_index_def NUM_LETTERS_def)
  show ?thesis
    by (intro conjI) (fact h1 h2 r0 r1 r2 u)+
qed

text \<open>
  C9: the queue is drained exactly once. The queue starts with the file indices 0 to
  \<open>nr_files - 1\<close>. Under every schedule of the mappers, a dequeue removes the head of the
  queue; the indices dequeued so far, in the order of the dequeues, followed by the queue
  are the initial queue, so that no index is dequeued twice and none is lost. When the map
  phase is over (at least one mapper, all at the barrier) the queue is empty and every index
  has been dequeued exactly once over all mappers; and the map phase is over under every
  schedule that gives each mapper enough steps.
\<close>

theorem queue_drain_exactly_once:
  "(dequeued s i = Some file_id \<longrightarrow> file_queue s = file_id # file_queue (step fs s i))
   \<and> map snd (dequeues fs (init m fs) sched) @ file_queue (exec fs sched (init m fs))
       = [0 ..< length fs]
   \<and> distinct (map snd (dequeues fs (init m fs) sched))
   \<and> (0 < m \<and> map_done (exec fs sched (init m fs)) \<longrightarrow>
         file_queue (exec fs sched (init m fs)) = []
         \<and> map snd (dequeues fs (init m fs) sched) = [0 ..< length fs]
         \<and> (\<forall>file_id < length fs. count_list (map snd (dequeues fs (init m fs) sched)) file_id = 1))
   \<and> ((\<forall>j < m. work fs (init m fs) \<le> count_list sched j) \<longrightarrow>
         map_done (exec fs sched (init m fs)))"
proof (intro conjI impI)
  assume "dequeued s i = Some file_id"
  with dequeue_step[of s i fs] show "file_queue s = file_id # file_queue (step fs s i)" by simp
next
  show all: "map snd (dequeues fs (init m fs) sched) @ file_queue (exec fs sched (init m fs))
       = [0 ..< length fs]"
    by (rule dequeues_init)
  have "distinct (map snd (dequeues fs (init m fs) sched) @ file_queue (exec fs sched (init m fs)))"
    by (simp only: all distinct_upt)
  then show "distinct (map snd (dequeues fs (init m fs) sched))" by simp
next
  assume a: "0 < m \<and> map_done (exec fs sched (init m fs))"
  have ne: "mappers (exec fs sched (init m fs)) \<noteq> []"
    using a length_mappers_exec[of fs sched "init m fs"] by (auto simp: init_def)
  have "inv fs (exec fs sched (init m fs))" by (rule inv_reachable)
  then show q: "file_queue (exec fs sched (init m fs)) = []"
    using a ne by (intro map_done_queue_empty) simp_all
  with dequeues_init[of fs m sched]
  show d: "map snd (dequeues fs (init m fs) sched) = [0 ..< length fs]" by simp
  show "\<forall>file_id < length fs. count_list (map snd (dequeues fs (init m fs) sched)) file_id = 1"
    unfolding d by (simp add: count_upt)
next
  assume "\<forall>j < m. work fs (init m fs) \<le> count_list sched j"
  then show "map_done (exec fs sched (init m fs))" by (rule map_phase_terminates)
qed

theorem queue_drain_exactly_once_witness:
  "dequeued (init 2 example_files) 1 = Some 0
   \<and> file_queue (init 2 example_files) = 0 # file_queue (step example_files (init 2 example_files) 1)
   \<and> (0::nat) < 2 \<and> map_done (exec example_files example_sched (init 2 example_files))
   \<and> file_queue (exec example_files example_sched (init 2 example_files)) = []
   \<and> dequeues example_files (init 2 example_files) example_sched = [(0, 0), (1, 1)]
   \<and> map snd (dequeues example_files (init 2 example_files) example_sched) = [0 ..< length example_files]
   \<and> work example_files (init 2 example_files) = 12
   \<and> count_list (round_robin 2 12) 0 = 12 \<and> count_list (round_robin 2 12) 1 = 12
   \<and> map_done (exec example_files (round_robin 2 12) (init 2 example_files))"
proof -
  have dq: "dequeued (init 2 example_files) 1 = Some 0" by code_simp
  have md: "map_done (exec example_files example_sched (init 2 example_files))" by code_simp
  have ds: "dequeues example_files (init 2 example_files) example_sched = [(0, 0), (1, 1)]"
    by code_simp
  have wk: "work example_files (init 2 example_files) = 12" by code_simp
  have c0: "count_list (round_robin 2 12) 0 = 12" by code_simp
  have c1: "count_list (round_robin 2 12) 1 = 12" by code_simp
  have z2: "(0::nat) < 2" by simp
  have fair: "\<forall>j < 2. work example_files (init 2 example_files) \<le> count_list (round_robin 2 12) j"
  proof (intro allI impI)
    fix j :: nat assume "j < 2"
    then have "j = 0 \<or> j = 1" by auto
    with c0 c1 wk show "work example_files (init 2 example_files) \<le> count_list (round_robin 2 12) j"
      by auto
  qed
  note t1 = queue_drain_exactly_once[of "init 2 example_files" 1 0 example_files 2 example_sched]
  note t2 = queue_drain_exactly_once[of "init 2 example_files" 1 0 example_files 2 "round_robin 2 12"]
  from t1 dq have a: "file_queue (init 2 example_files) =
      0 # file_queue (step example_files (init 2 example_files) 1)" by blast
  from t1 z2 md have b: "file_queue (exec example_files example_sched (init 2 example_files)) = []"
    and c: "map snd (dequeues example_files (init 2 example_files) example_sched) =
      [0 ..< length example_files]" by blast+
  from t2 fair have d: "map_done (exec example_files (round_robin 2 12) (init 2 example_files))"
    by blast
  show ?thesis
    by (intro conjI) (fact dq a z2 md b ds c wk c0 c1 d)+
qed

text \<open>
  C10: the keys of the shard tables are consistent. In every state that the map phase can
  reach, every key \<open>w\<close> of the table of shard \<open>s\<close> maps to an entry whose word is \<open>w\<close>, and
  the first character of \<open>w\<close> is \<open>'a' + s\<close>. A call of \<^verbatim>\<open>add_table\<close> on the table of the
  shard of the word keeps this, and the mapper calls \<^verbatim>\<open>add_table\<close> for a word only on the
  shard of its first letter.
\<close>

theorem shard_key_consistency:
  "(\<forall>l < NUM_LETTERS. key_consistent l (results (exec fs sched (init m fs)) ! l))
   \<and> (key_consistent l t \<and> w \<noteq> [] \<and> hd w = letter_char l \<longrightarrow>
         key_consistent l (add_table t w file_id))
   \<and> (\<forall>(l', w') \<in> set (file_calls content).
         l' < NUM_LETTERS \<and> w' \<noteq> [] \<and> hd w' = letter_char l')"
proof (intro conjI allI impI)
  fix l assume "l < NUM_LETTERS"
  then show "key_consistent l (results (exec fs sched (init m fs)) ! l)"
    by (rule reachable_key_consistent)
next
  assume "key_consistent l t \<and> w \<noteq> [] \<and> hd w = letter_char l"
  then show "key_consistent l (add_table t w file_id)"
    by (intro key_consistent_add_table) simp_all
next
  show "\<forall>(l', w') \<in> set (file_calls content).
         l' < NUM_LETTERS \<and> w' \<noteq> [] \<and> hd w' = letter_char l'"
  proof (intro ballI, clarify)
    fix l' w' assume "(l', w') \<in> set (file_calls content)"
    then have w: "w' \<in> set (file_words content)" and l: "l' = nat (letter_index w')"
      by (auto simp: file_calls_set)
    note s = file_words_shard[OF w]
    from letter_index_hd[OF s(2), of w'] s(3) have "hd w' = letter_char (nat (letter_index w'))"
      by simp
    with s l show "l' < NUM_LETTERS \<and> w' \<noteq> [] \<and> hd w' = letter_char l'" by simp
  qed
qed

theorem shard_key_consistency_witness:
  "(2::nat) < NUM_LETTERS
   \<and> results (exec example_files example_sched (init 2 example_files)) ! 2
       = [(''cat'', \<lparr>word = ''cat'', file_ids = [1, 2]\<rparr>)]
   \<and> key_consistent 2 [(''cat'', \<lparr>word = ''cat'', file_ids = [1, 2]\<rparr>)]
   \<and> hd ''cow'' = letter_char 2
   \<and> key_consistent 2 (add_table [(''cat'', \<lparr>word = ''cat'', file_ids = [1, 2]\<rparr>)] ''cow'' 4)
   \<and> file_calls ''Cat cat DOG'' = [(2, ''cat''), (3, ''dog'')]
   \<and> hd ''dog'' = letter_char 3"
proof -
  have l2: "(2::nat) < NUM_LETTERS" by (simp add: NUM_LETTERS_def)
  have rs: "results (exec example_files example_sched (init 2 example_files)) ! 2
       = [(''cat'', \<lparr>word = ''cat'', file_ids = [1, 2]\<rparr>)]" by code_simp
  have hc: "hd ''cow'' = letter_char 2" by code_simp
  have fc: "file_calls ''Cat cat DOG'' = [(2, ''cat''), (3, ''dog'')]" by code_simp
  have ne: "''cow'' \<noteq> []" by simp
  note t = shard_key_consistency[of example_files example_sched 2 2
      "[(''cat'', \<lparr>word = ''cat'', file_ids = [1, 2]\<rparr>)]" "''cow''" 4 "''Cat cat DOG''"]
  from t l2 have "key_consistent 2 (results (exec example_files example_sched (init 2 example_files)) ! 2)"
    by blast
  then have a: "key_consistent 2 [(''cat'', \<lparr>word = ''cat'', file_ids = [1, 2]\<rparr>)]"
    by (simp only: rs)
  from t a ne hc
  have b: "key_consistent 2 (add_table [(''cat'', \<lparr>word = ''cat'', file_ids = [1, 2]\<rparr>)] ''cow'' 4)"
    by blast
  from t have "\<forall>(l', w') \<in> set (file_calls ''Cat cat DOG'').
         l' < NUM_LETTERS \<and> w' \<noteq> [] \<and> hd w' = letter_char l'" by blast
  then have c: "hd ''dog'' = letter_char 3" by (simp add: fc)
  show ?thesis
    by (intro conjI) (fact l2 rs a hc b fc c)+
qed

end
